theory Spec2Isabelle
  imports Main
begin

section \<open>The tiny shell \<open>tsh.c\<close>: data model\<close>

text \<open>
  The job states are the manifest constants \<open>UNDEF 0\<close>, \<open>FG 1\<close>, \<open>BG 2\<close>, \<open>ST 3\<close>
  of the source; no other value is ever stored in a \<open>state\<close> field.
\<close>

datatype jstate = UNDEF | FG | BG | ST

fun state_num :: "jstate \<Rightarrow> int" where
  "state_num UNDEF = 0"
| "state_num FG = 1"
| "state_num BG = 2"
| "state_num ST = 3"

text \<open>
  \<open>struct job_t\<close>. A \<open>pid_t\<close> and an \<open>int\<close> are modelled as unbounded integers: job ids
  grow by at most one per call of \<open>addjob\<close>, so the 32-bit range is out of reach.
  \<open>cmdline\<close> is the C string held in the buffer (without its terminator).
\<close>

record job_t =
  pid :: int
  jid :: int
  state :: jstate
  cmdline :: string

definition MAXJOBS :: int where
  "MAXJOBS = 16"

text \<open>
  The process-wide state: the globals \<open>jobs\<close>, \<open>nextjid\<close>, \<open>verbose\<close> of the source
  (the array \<open>jobs[MAXJOBS]\<close> is a list of slots, whose length no routine changes),
  \<open>errno\<close>, whether \<open>SIGCHLD\<close> is in the signal mask of the process, what has been
  printed (one entry per \<open>printf\<close> call, stderr being redirected to stdout by \<open>dup2(1, 2)\<close>),
  and the calls of \<open>kill(pid, sig)\<close> made so far.
\<close>

record shell =
  jobs :: "job_t list"
  nextjid :: int
  verbose :: bool
  errno :: int
  sigchld_blocked :: bool
  out :: "string list"
  kills :: "(int \<times> int) list"

definition printf :: "string \<Rightarrow> shell \<Rightarrow> shell" where
  "printf s sh = sh\<lparr>out := out sh @ [s]\<rparr>"

subsection \<open>Formatting and parsing integers\<close>

text \<open>The conversion \<open>%d\<close> of \<open>printf\<close>.\<close>

function digits :: "nat \<Rightarrow> string" where
  "digits n = (if n < 10 then [''0123456789'' ! n]
               else digits (n div 10) @ [''0123456789'' ! (n mod 10)])"
  by pat_completeness auto
termination
  by (relation "measure (\<lambda>n. n)") auto

declare digits.simps [simp del]

definition show_int :: "int \<Rightarrow> string" where
  "show_int i = (if i < 0 then ''-'' @ digits (nat (- i)) else digits (nat i))"

text \<open>
  \<open>atoi\<close> of the C library is \<open>(int) strtol(nptr, NULL, 10)\<close>: leading white space, an
  optional sign, then the longest run of decimal digits; \<open>0\<close> when there is no digit.
  \<open>strtol\<close> saturates at \<open>LONG_MIN\<close> and \<open>LONG_MAX\<close> (64 bits), and the conversion to the
  32-bit \<open>int\<close> keeps the low 32 bits, read as a signed number: \<open>4294967396\<close> is read as
  100, and a run of twenty digits as -1. The values that \<open>do_bgfg\<close> stores in its locals
  \<open>jobid\<close> and \<open>pidt\<close> are therefore always in the range of \<open>int\<close>.
\<close>

definition isspace :: "char \<Rightarrow> bool" where
  "isspace c = (c \<in> set [CHR '' '', CHR 0x09, CHR 0x0A, CHR 0x0B, CHR 0x0C, CHR 0x0D])"

definition isdigit :: "char \<Rightarrow> bool" where
  "isdigit c = (48 \<le> (of_char c :: nat) \<and> (of_char c :: nat) \<le> 57)"

definition digits_val :: "string \<Rightarrow> int" where
  "digits_val s = foldl (\<lambda>a c. 10 * a + (int (of_char c) - 48)) 0 (takeWhile isdigit s)"

definition strtol :: "string \<Rightarrow> int" where
  "strtol s =
     (let v = (case dropWhile isspace s of
                 [] \<Rightarrow> 0
               | c # r \<Rightarrow> if c = CHR ''-'' then - digits_val r
                          else if c = CHR ''+'' then digits_val r
                          else digits_val (c # r))
      in if v < - (2 ^ 63) then - (2 ^ 63)
         else if v > 2 ^ 63 - 1 then 2 ^ 63 - 1
         else v)"

definition to_int32 :: "int \<Rightarrow> int" where
  "to_int32 v = (v + 2 ^ 31) mod 2 ^ 32 - 2 ^ 31"

definition atoi :: "string \<Rightarrow> int" where
  "atoi s = to_int32 (strtol s)"

section \<open>Helper routines that manipulate the job list\<close>

text \<open>\<open>clearjob\<close>: clear the entries in a job struct.\<close>

definition clearjob :: "job_t \<Rightarrow> job_t" where
  "clearjob job = job\<lparr>pid := 0, jid := 0, state := UNDEF, cmdline := []\<rparr>"

text \<open>\<open>initjobs\<close>: the loop \<open>for (i = 0; i < MAXJOBS; i++) clearjob(&jobs[i])\<close>.\<close>

definition initjobs :: "job_t list \<Rightarrow> job_t list" where
  "initjobs js = map clearjob js"

text \<open>
  \<open>maxjid\<close>: the loop starts from \<open>max = 0\<close> and looks at every slot, free or not.
\<close>

definition maxjid :: "job_t list \<Rightarrow> int" where
  "maxjid js = foldl (\<lambda>m j. if jid j > m then jid j else m) 0 js"

text \<open>
  The scans \<open>for (i = 0; i < MAXJOBS; i++) if (...) return ...\<close> of the source stop at
  the lowest index whose slot passes the test.
\<close>

primrec first_index :: "('a \<Rightarrow> bool) \<Rightarrow> 'a list \<Rightarrow> nat option" where
  "first_index P [] = None"
| "first_index P (x # xs) = (if P x then Some 0 else map_option Suc (first_index P xs))"

text \<open>
  \<open>addjob\<close>: returns 0 (\<open>False\<close>) or 1 (\<open>True\<close>). The counter is post-incremented and
  wraps to 1 once it exceeds \<open>MAXJOBS\<close>.
\<close>

definition addjob :: "int \<Rightarrow> jstate \<Rightarrow> string \<Rightarrow> shell \<Rightarrow> bool \<times> shell" where
  "addjob p s c sh =
     (if p < 1 then (False, sh)
      else case first_index (\<lambda>j. pid j = 0) (jobs sh) of
          Some i \<Rightarrow>
            (let job = (jobs sh ! i)\<lparr>pid := p, state := s, jid := nextjid sh, cmdline := c\<rparr>;
                 n = nextjid sh + 1;
                 sh' = sh\<lparr>jobs := (jobs sh)[i := job],
                          nextjid := (if n > MAXJOBS then 1 else n)\<rparr>
             in (True,
                 if verbose sh
                 then printf (''Added job ['' @ show_int (jid job) @ ''] '' @ show_int (pid job)
                              @ '' '' @ cmdline job @ ''\<newline>'') sh'
                 else sh'))
        | None \<Rightarrow> (False, printf ''Tried to create too many jobs\<newline>'' sh))"

text \<open>\<open>deletejob\<close>: delete the job whose PID is \<open>p\<close> from the job list.\<close>

definition deletejob :: "int \<Rightarrow> shell \<Rightarrow> bool \<times> shell" where
  "deletejob p sh =
     (if p < 1 then (False, sh)
      else case first_index (\<lambda>j. pid j = p) (jobs sh) of
          Some i \<Rightarrow>
            (let js = (jobs sh)[i := clearjob (jobs sh ! i)]
             in (True, sh\<lparr>jobs := js, nextjid := maxjid js + 1\<rparr>))
        | None \<Rightarrow> (False, sh))"

text \<open>\<open>fgpid\<close>: PID of the current foreground job, 0 if there is none.\<close>

definition fgpid :: "job_t list \<Rightarrow> int" where
  "fgpid js = (case first_index (\<lambda>j. state j = FG) js of
                 Some i \<Rightarrow> pid (js ! i)
               | None \<Rightarrow> 0)"

text \<open>
  \<open>getjobpid\<close>, \<open>getjobjid\<close>: the source returns a pointer into the array or \<open>NULL\<close>; the
  model returns the index of the slot.
\<close>

definition getjobpid :: "job_t list \<Rightarrow> int \<Rightarrow> nat option" where
  "getjobpid js p = (if p < 1 then None else first_index (\<lambda>j. pid j = p) js)"

definition getjobjid :: "job_t list \<Rightarrow> int \<Rightarrow> nat option" where
  "getjobjid js i = (if i < 1 then None else first_index (\<lambda>j. jid j = i) js)"

definition pid2jid :: "job_t list \<Rightarrow> int \<Rightarrow> int" where
  "pid2jid js p =
     (if p < 1 then 0
      else case first_index (\<lambda>j. pid j = p) js of
          Some i \<Rightarrow> jid (js ! i)
        | None \<Rightarrow> 0)"

text \<open>
  \<open>listjobs\<close>: one slot of the loop, then the loop over the slots with their indices.
\<close>

definition listjob :: "nat \<Rightarrow> job_t \<Rightarrow> shell \<Rightarrow> shell" where
  "listjob i j sh =
     (if pid j \<noteq> 0 then
        printf (cmdline j)
          (printf (case state j of
                     BG \<Rightarrow> ''Running ''
                   | FG \<Rightarrow> ''Foreground ''
                   | ST \<Rightarrow> ''Stopped ''
                   | UNDEF \<Rightarrow> ''listjobs: Internal error: job['' @ show_int (int i)
                                @ ''].state='' @ show_int (state_num (state j)) @ '' '')
             (printf (''['' @ show_int (jid j) @ ''] ('' @ show_int (pid j) @ '') '') sh))
      else sh)"

definition listjobs :: "job_t list \<Rightarrow> shell \<Rightarrow> shell" where
  "listjobs js sh = fold (\<lambda>(i, j). listjob i j) (List.enumerate 0 js) sh"

section \<open>The operating system as seen by the shell\<close>

text \<open>
  The values of \<open>errno.h\<close> and \<open>signal.h\<close> on Linux; the theorems below use only that
  they are positive and distinct.
\<close>

definition ESRCH :: int where "ESRCH = 3"
definition EINTR :: int where "EINTR = 4"
definition ECHILD :: int where "ECHILD = 10"
definition SIGCONT :: int where "SIGCONT = 18"

text \<open>
  What \<open>waitpid(-1, &status, WNOHANG|WUNTRACED)\<close> reports about a child: with these
  options exactly one of \<open>WIFEXITED\<close>, \<open>WIFSIGNALED\<close>, \<open>WIFSTOPPED\<close> holds, and the
  argument is \<open>WEXITSTATUS\<close>, \<open>WTERMSIG\<close>, \<open>WSTOPSIG\<close>.
\<close>

datatype wstatus = WExited int | WSignaled int | WStopped int

text \<open>
  One delivery of \<open>SIGCHLD\<close>: the children that the successive calls of \<open>waitpid\<close> in the
  handler report (return value and status), and how the call that ends the loop returns:
  \<open>None\<close> when it returns 0 (children exist, none has changed state; \<open>errno\<close> is left as
  it was), \<open>Some e\<close> when it returns -1 and sets \<open>errno\<close> to \<open>e\<close>.
\<close>

type_synonym delivery = "(int \<times> wstatus) list \<times> int option"

text \<open>
  The answers of the system calls: the value \<open>fork\<close> returns and the \<open>errno\<close> it sets
  when it fails, whether \<open>execve\<close> replaces the image (\<open>None\<close>) or fails with an \<open>errno\<close>,
  whether \<open>kill(pid, sig)\<close> succeeds (\<open>None\<close>) or fails with an \<open>errno\<close>, the text of
  \<open>strerror\<close>, and the deliveries of \<open>SIGCHLD\<close> that interrupt the successive calls of
  \<open>sleep(1)\<close> in \<open>waitfg\<close>. (\<open>sigemptyset\<close>, \<open>sigaddset\<close> and \<open>sigprocmask\<close> cannot fail on
  the arguments the shell passes.)
\<close>

record sys =
  fork_ret :: int
  fork_errno :: int
  execve_errno :: "int option"
  kill_errno :: "int \<Rightarrow> int \<Rightarrow> int option"
  strerror :: "int \<Rightarrow> string"
  sigchld :: "delivery list"

text \<open>
  How a procedure of the shell ends: it returns to its caller, the process exits with a
  status, it dereferences \<open>NULL\<close>, \<open>execve\<close> has replaced the image, or it never returns.
\<close>

datatype outcome =
    Returns shell
  | Exits int shell
  | Segfault shell
  | Execs "string list" shell
  | Hangs shell

text \<open>\<open>unix_error\<close>: print the message with the text of \<open>errno\<close> and \<open>exit(1)\<close>.\<close>

definition unix_error :: "sys \<Rightarrow> string \<Rightarrow> shell \<Rightarrow> outcome" where
  "unix_error sy msg sh = Exits 1 (printf (msg @ '': '' @ strerror sy (errno sh) @ ''\<newline>'') sh)"

text \<open>\<open>Kill\<close>: the wrapper of \<open>kill\<close>; a failure other than \<open>ESRCH\<close> is fatal.\<close>

definition Kill :: "sys \<Rightarrow> int \<Rightarrow> int \<Rightarrow> shell \<Rightarrow> outcome" where
  "Kill sy p signum sh =
     (let sh1 = sh\<lparr>kills := kills sh @ [(p, signum)]\<rparr>
      in case kill_errno sy p signum of
           None \<Rightarrow> Returns sh1
         | Some e \<Rightarrow> if e \<noteq> ESRCH then unix_error sy ''Kill error'' (sh1\<lparr>errno := e\<rparr>)
                     else Returns (sh1\<lparr>errno := e\<rparr>))"

section \<open>Signal handlers\<close>

definition set_state :: "nat \<Rightarrow> jstate \<Rightarrow> shell \<Rightarrow> shell" where
  "set_state i s sh = sh\<lparr>jobs := (jobs sh)[i := (jobs sh ! i)\<lparr>state := s\<rparr>]\<rparr>"

text \<open>
  The body of the loop of \<open>sigchld_handler\<close> for one reaped child. (The source declares
  \<open>pid\<close>, \<open>status\<close> and \<open>jobid\<close> inside the block of the first \<open>if (verbose)\<close>; they are read
  here as locals of the handler.) In the branch of a signalled child only the first
  \<open>printf\<close> is under \<open>if (verbose)\<close>.
\<close>

definition reap_one :: "int \<Rightarrow> wstatus \<Rightarrow> shell \<Rightarrow> outcome" where
  "reap_one p status sh =
     (let jobid = pid2jid (jobs sh) p in
      case status of
        WStopped n \<Rightarrow>
          (case getjobpid (jobs sh) p of
             None \<Rightarrow> Segfault sh
           | Some i \<Rightarrow>
               Returns (printf (''Job ['' @ show_int jobid @ ''] ('' @ show_int p
                                @ '') stopped by signal '' @ show_int n @ '' \<newline>'')
                          (set_state i ST sh)))
      | WSignaled n \<Rightarrow>
          (let sh1 = snd (deletejob p sh);
               sh2 = (if verbose sh1
                      then printf (''sigchld_handler: Job ['' @ show_int jobid @ ''] (''
                                   @ show_int p @ '') deleted \<newline>'') sh1
                      else sh1)
           in Returns (printf (''Job ['' @ show_int jobid @ ''] ('' @ show_int p
                               @ '') terminated by signal '' @ show_int n @ '' \<newline>'') sh2))
      | WExited c \<Rightarrow>
          (let sh1 = snd (deletejob p sh)
           in Returns (if verbose sh1
                       then printf (''sigchld_handler: Job ['' @ show_int jobid @ ''] (''
                                    @ show_int p @ '') terminated okay (status 0) \<newline>'')
                              (printf (''sigchld_handler: Job ['' @ show_int jobid @ ''] (''
                                       @ show_int p @ '') deleted \<newline>'') sh1)
                       else sh1)))"

text \<open>
  The loop \<open>while ((pid = waitpid(...)) > 0)\<close>: it ends at the first return value that
  is not positive.
\<close>

fun reap_loop :: "(int \<times> wstatus) list \<Rightarrow> int option \<Rightarrow> shell \<Rightarrow> outcome" where
  "reap_loop [] fin sh = Returns (case fin of None \<Rightarrow> sh | Some e \<Rightarrow> sh\<lparr>errno := e\<rparr>)"
| "reap_loop ((p, w) # rest) fin sh =
     (if p > 0 then
        (case reap_one p w sh of
           Returns sh' \<Rightarrow> reap_loop rest fin sh'
         | oc \<Rightarrow> oc)
      else Returns sh)"

definition sigchld_handler :: "delivery \<Rightarrow> sys \<Rightarrow> shell \<Rightarrow> outcome" where
  "sigchld_handler d sy sh =
     (let sh0 = (if verbose sh then printf ''sigchld_handler: entering \<newline>'' sh else sh)
      in case reap_loop (fst d) (snd d) sh0 of
           Returns sh1 \<Rightarrow>
             if ECHILD \<noteq> errno sh1 \<and> EINTR \<noteq> errno sh1
             then unix_error sy ''waitpid error'' sh1
             else Returns (if verbose sh1 then printf ''sigchld_handler: exiting \<newline>'' sh1
                           else sh1)
         | oc \<Rightarrow> oc)"

section \<open>Waiting for the foreground job\<close>

text \<open>
  The test of the loop of \<open>waitfg\<close>, \<open>fgpid(jobs) && jid->state != ST\<close>, where \<open>jid\<close> is the
  pointer that \<open>getjobpid\<close> returned on entry: \<open>None\<close> when the test dereferences \<open>NULL\<close>.
\<close>

definition waitfg_test :: "nat option \<Rightarrow> shell \<Rightarrow> bool option" where
  "waitfg_test slot sh =
     (if fgpid (jobs sh) \<noteq> 0 then
        (case slot of None \<Rightarrow> None | Some i \<Rightarrow> Some (state (jobs sh ! i) \<noteq> ST))
      else Some False)"

text \<open>
  The loop sleeps until something changes the job list, and only \<open>sigchld_handler\<close> does
  that while the main flow sleeps: the loop is run against the deliveries of \<open>SIGCHLD\<close>
  that interrupt its sleeps. When the test still holds and no delivery is left, or
  \<open>SIGCHLD\<close> is blocked, the loop never ends.
\<close>

fun waitfg_loop :: "nat option \<Rightarrow> delivery list \<Rightarrow> sys \<Rightarrow> shell \<Rightarrow> outcome" where
  "waitfg_loop slot [] sy sh =
     (case waitfg_test slot sh of
        None \<Rightarrow> Segfault sh
      | Some True \<Rightarrow> Hangs sh
      | Some False \<Rightarrow> Returns sh)"
| "waitfg_loop slot (d # ds) sy sh =
     (case waitfg_test slot sh of
        None \<Rightarrow> Segfault sh
      | Some True \<Rightarrow>
          if sigchld_blocked sh then Hangs sh
          else (case sigchld_handler d sy sh of
                  Returns sh' \<Rightarrow> waitfg_loop slot ds sy sh'
                | oc \<Rightarrow> oc)
      | Some False \<Rightarrow> Returns sh)"

definition waitfg :: "sys \<Rightarrow> int \<Rightarrow> shell \<Rightarrow> outcome" where
  "waitfg sy p sh =
     (case waitfg_loop (getjobpid (jobs sh) p) (sigchld sy) sy sh of
        Returns sh' \<Rightarrow>
          Returns (if verbose sh'
                   then printf (''waitfg: process ('' @ show_int p
                                @ '') is no longer the foreground process \<newline>'') sh'
                   else sh')
      | oc \<Rightarrow> oc)"

section \<open>The built-in commands \<open>bg\<close> and \<open>fg\<close>\<close>

text \<open>The first character of a C string: the terminator when the string is empty.\<close>

definition first_char :: "string \<Rightarrow> char" where
  "first_char s = (case s of [] \<Rightarrow> CHR 0x00 | c # _ \<Rightarrow> c)"

text \<open>
  The error checking at the head of \<open>do_bgfg\<close>: the message printed before returning,
  if any. \<open>argv[1]\<close> is \<open>NULL\<close> when the vector has a single entry. \<open>argv[1]+1\<close> is the
  string without its first character; on an empty \<open>argv[1]\<close> the source reads behind
  the terminator, where the value does not matter because \<open>argv[1][0]\<close> is not \<open>%\<close>.
\<close>

definition bgfg_errors :: "bool \<Rightarrow> string list \<Rightarrow> string option" where
  "bgfg_errors is_BG argv =
     (if is_BG then
        (if length argv < 2 then Some ''bg command requires PID or %jobid argument \<newline>''
         else if (atoi (drop 1 (argv ! 1)) = 0 \<and> first_char (argv ! 1) = CHR ''%'')
                 \<or> (atoi (argv ! 1) = 0 \<and> first_char (argv ! 1) \<noteq> CHR ''%'')
         then Some ''bg: argument must be a PID or %jobid \<newline>''
         else None)
      else
        (if length argv < 2 then Some ''fg command requires PID or %jobid argument \<newline>''
         else if (atoi (drop 1 (argv ! 1)) = 0 \<and> first_char (argv ! 1) = CHR ''%'')
                 \<or> (atoi (argv ! 1) = 0 \<and> first_char (argv ! 1) \<noteq> CHR ''%'')
         then Some ''fg: argument must be a PID or %jobid \<newline>''
         else None))"

text \<open>
  The end of \<open>do_bgfg\<close>, once the job is resolved: \<open>i\<close> is the slot \<open>jid\<close> points to,
  \<open>jobid\<close> and \<open>pidt\<close> are the locals of the source.
\<close>

definition bgfg_resume :: "sys \<Rightarrow> bool \<Rightarrow> nat \<Rightarrow> int \<Rightarrow> int \<Rightarrow> shell \<Rightarrow> outcome" where
  "bgfg_resume sy is_BG i jobid pidt sh =
     (if is_BG then
        (case Kill sy (- pidt) SIGCONT (set_state i BG sh) of
           Returns sh2 \<Rightarrow>
             Returns (printf (''['' @ show_int jobid @ ''] ('' @ show_int pidt @ '') ''
                              @ cmdline (jobs sh2 ! i)) sh2)
         | oc \<Rightarrow> oc)
      else
        (case Kill sy (- pidt) SIGCONT (set_state i FG sh) of
           Returns sh2 \<Rightarrow> waitfg sy pidt sh2
         | oc \<Rightarrow> oc))"

definition do_bgfg :: "sys \<Rightarrow> string list \<Rightarrow> shell \<Rightarrow> outcome" where
  "do_bgfg sy argv sh =
     (let is_BG = (hd argv = ''bg'') in
      case bgfg_errors is_BG argv of
        Some msg \<Rightarrow> Returns (printf msg sh)
      | None \<Rightarrow>
          if first_char (argv ! 1) = CHR ''%'' then
            (let jobid = atoi (drop 1 (argv ! 1)) in
             case getjobjid (jobs sh) jobid of
               None \<Rightarrow> Returns (printf (''%'' @ show_int jobid @ '': No such job \<newline>'') sh)
             | Some i \<Rightarrow> bgfg_resume sy is_BG i jobid (pid (jobs sh ! i)) sh)
          else
            (let pidt = atoi (argv ! 1) in
             case getjobpid (jobs sh) pidt of
               None \<Rightarrow> Returns (printf (''('' @ show_int pidt @ ''): No such process \<newline>'') sh)
             | Some i \<Rightarrow> bgfg_resume sy is_BG i (pid (jobs sh ! i)) pidt sh))"

section \<open>Parsing and evaluating a command line\<close>

text \<open>
  The loop of \<open>parseline\<close> that builds \<open>argv\<close>: \<open>buf\<close> is what is left of the line, its
  leading spaces skipped. An argument ends at the next space, or at the next single
  quote when it starts with one; the loop ends when \<open>strchr\<close> finds no delimiter.
\<close>

function build_argv :: "string \<Rightarrow> string list" where
  "build_argv buf =
     (let delimc = (if first_char buf = CHR 0x27 then CHR 0x27 else CHR '' '');
          b = (if first_char buf = CHR 0x27 then drop 1 buf else buf)
      in if delimc \<in> set b
         then takeWhile (\<lambda>c. c \<noteq> delimc) b
              # build_argv (dropWhile (\<lambda>c. c = CHR '' '')
                              (drop 1 (dropWhile (\<lambda>c. c \<noteq> delimc) b)))
         else [])"
  by pat_completeness auto
termination
proof (relation "measure length", goal_cases)
  case 1
  show ?case by simp
next
  case (2 buf delimc b)
  have "length (dropWhile (\<lambda>c. c = CHR '' '') (drop 1 (dropWhile (\<lambda>c. c \<noteq> delimc) b)))
        \<le> length (drop 1 (dropWhile (\<lambda>c. c \<noteq> delimc) b))"
    by (rule length_dropWhile_le)
  moreover have "dropWhile (\<lambda>c. c \<noteq> delimc) b \<noteq> []"
    using 2 by (simp add: dropWhile_eq_Nil_conv)
  then have "length (drop 1 (dropWhile (\<lambda>c. c \<noteq> delimc) b))
             < length (dropWhile (\<lambda>c. c \<noteq> delimc) b)"
    by (cases "dropWhile (\<lambda>c. c \<noteq> delimc) b") auto
  moreover have "length (dropWhile (\<lambda>c. c \<noteq> delimc) b) \<le> length b"
    by (rule length_dropWhile_le)
  moreover have "length b \<le> length buf"
    using 2 by (simp split: if_splits)
  ultimately show ?case by simp
qed

declare build_argv.simps [simp del]

text \<open>
  \<open>parseline\<close>: the last character of the line (the newline that \<open>fgets\<close> leaves) is
  replaced by a space; the result is \<open>argv\<close> and whether the job runs in the background.
  A blank line gives the empty vector and \<open>1\<close>. (The line is not empty: \<open>fgets\<close> has
  returned it.)
\<close>

definition parseline :: "string \<Rightarrow> string list \<times> bool" where
  "parseline cl =
     (let argv = build_argv (dropWhile (\<lambda>c. c = CHR '' '') (butlast cl @ '' ''))
      in if argv = [] then ([], True)
         else if first_char (last argv) = CHR ''&'' then (butlast argv, True)
         else (argv, False))"

text \<open>
  \<open>builtin_cmd\<close>: \<open>None\<close> when the command is not built in (the source returns 0),
  otherwise how the built-in command ends (the source returns 1, or \<open>quit\<close> exits).
\<close>

definition builtin_cmd :: "sys \<Rightarrow> string list \<Rightarrow> shell \<Rightarrow> outcome option" where
  "builtin_cmd sy argv sh =
     (if hd argv = ''quit'' then Some (Exits 0 sh)
      else if hd argv = ''bg'' \<or> hd argv = ''fg'' then Some (do_bgfg sy argv sh)
      else if hd argv = ''jobs'' then Some (Returns (listjobs (jobs sh) sh))
      else None)"

text \<open>
  \<open>eval\<close>. After \<open>fork\<close> the model follows the process that \<open>fork_ret\<close> selects: the
  child when it is 0, the parent when it is positive. The call \<open>setpgid(0, 0)\<close> of the
  child changes nothing that the shell state records. In the parent the job is added
  under the process id that \<open>fork\<close> returned, with the command line as typed.
\<close>

definition eval :: "sys \<Rightarrow> string \<Rightarrow> shell \<Rightarrow> outcome" where
  "eval sy cl sh =
     (let argv = fst (parseline cl); bg = snd (parseline cl) in
      if argv = [] then Returns sh
      else case builtin_cmd sy argv sh of
          Some oc \<Rightarrow> oc
        | None \<Rightarrow>
            (let sh1 = sh\<lparr>sigchld_blocked := True\<rparr> in
             if fork_ret sy < 0 then unix_error sy ''Fork error'' (sh1\<lparr>errno := fork_errno sy\<rparr>)
             else if fork_ret sy = 0 then
               (let sh2 = sh1\<lparr>sigchld_blocked := False\<rparr> in
                case execve_errno sy of
                  None \<Rightarrow> Execs argv sh2
                | Some e \<Rightarrow> Exits 0 (printf (hd argv @ '': Command not found. \<newline>'')
                                       (sh2\<lparr>errno := e\<rparr>)))
             else if \<not> bg then
               (case addjob (fork_ret sy) FG cl sh1 of
                  (True, sh2) \<Rightarrow> waitfg sy (fork_ret sy) (sh2\<lparr>sigchld_blocked := False\<rparr>)
                | (False, sh2) \<Rightarrow> Returns sh2)
             else
               (case addjob (fork_ret sy) BG cl sh1 of
                  (True, sh2) \<Rightarrow>
                    Returns (printf (''['' @ show_int (pid2jid (jobs sh2) (fork_ret sy)) @ ''] (''
                                     @ show_int (fork_ret sy) @ '') '' @ cl)
                               (sh2\<lparr>sigchld_blocked := False\<rparr>))
                | (False, sh2) \<Rightarrow> Returns sh2)))"

section \<open>Sequences of operations on the job list\<close>

text \<open>
  The operations that change the job list: \<open>addjob\<close> (from \<open>eval\<close>), \<open>deletejob\<close> and the
  transition to \<open>ST\<close> (from \<open>sigchld_handler\<close>), and the transitions to \<open>BG\<close> and \<open>FG\<close> that
  \<open>do_bgfg\<close> makes on the job it resolves by job id or by process id. A transition whose
  job is not found leaves the list as it is.
\<close>

datatype jobref = ByJid int | ByPid int

fun resolve :: "job_t list \<Rightarrow> jobref \<Rightarrow> nat option" where
  "resolve js (ByJid i) = getjobjid js i"
| "resolve js (ByPid p) = getjobpid js p"

datatype job_op =
    Insert int jstate string
  | Remove int
  | ToBG jobref
  | ToFG jobref
  | ToST int

fun apply_op :: "job_op \<Rightarrow> shell \<Rightarrow> shell" where
  "apply_op (Insert p s c) sh = snd (addjob p s c sh)"
| "apply_op (Remove p) sh = snd (deletejob p sh)"
| "apply_op (ToBG r) sh = (case resolve (jobs sh) r of None \<Rightarrow> sh | Some i \<Rightarrow> set_state i BG sh)"
| "apply_op (ToFG r) sh = (case resolve (jobs sh) r of None \<Rightarrow> sh | Some i \<Rightarrow> set_state i FG sh)"
| "apply_op (ToST p) sh = (case getjobpid (jobs sh) p of None \<Rightarrow> sh | Some i \<Rightarrow> set_state i ST sh)"

fun run_ops :: "job_op list \<Rightarrow> shell \<Rightarrow> shell" where
  "run_ops [] sh = sh"
| "run_ops (x # xs) sh = run_ops xs (apply_op x sh)"

text \<open>The job list of a fresh shell: the zero-initialised array after \<open>initjobs\<close>.\<close>

definition empty_job :: job_t where
  "empty_job = \<lparr>pid = 0, jid = 0, state = UNDEF, cmdline = []\<rparr>"

definition init_shell :: shell where
  "init_shell = \<lparr>jobs = initjobs (replicate 16 empty_job), nextjid = 1, verbose = False,
                 errno = 0, sigchld_blocked = False, out = [], kills = []\<rparr>"

text \<open>
  The state of the table that every run of the shell maintains: a free slot
  (\<open>pid = 0\<close>) is cleared, an occupied one carries a positive job id, and the counter is
  positive.
\<close>

definition wf_job :: "job_t \<Rightarrow> bool" where
  "wf_job j = (if pid j = 0 then jid j = 0 \<and> state j = UNDEF else 1 \<le> jid j)"

definition wf_shell :: "shell \<Rightarrow> bool" where
  "wf_shell sh = (list_all wf_job (jobs sh) \<and> 1 \<le> nextjid sh)"

definition occupied :: "job_t list \<Rightarrow> job_t list" where
  "occupied js = filter (\<lambda>j. pid j \<noteq> 0) js"

definition fg_count :: "job_t list \<Rightarrow> nat" where
  "fg_count js = length (filter (\<lambda>j. state j = FG) (occupied js))"

text \<open>An occupied slot in the foreground state.\<close>

definition is_fg :: "job_t \<Rightarrow> bool" where
  "is_fg j = (pid j \<noteq> 0 \<and> state j = FG)"

section \<open>The read/eval loop\<close>

text \<open>
  What happens to the shell at its prompt: a command line is read and evaluated (with the
  answers of the system during that command), or \<open>SIGCHLD\<close> is delivered while the main
  flow waits for input. A \<open>SIGCHLD\<close> that arrives while the signal is blocked stays
  pending and runs no handler.
\<close>

datatype event = Command sys string | Sigchld delivery sys

fun step :: "event \<Rightarrow> shell \<Rightarrow> outcome" where
  "step (Command sy cl) sh = eval sy cl sh"
| "step (Sigchld d sy) sh = (if sigchld_blocked sh then Returns sh else sigchld_handler d sy sh)"


text \<open>The state of the shell in which a procedure ends.\<close>

fun final_state :: "outcome \<Rightarrow> shell" where
  "final_state (Returns sh) = sh"
| "final_state (Exits c sh) = sh"
| "final_state (Segfault sh) = sh"
| "final_state (Execs argv sh) = sh"
| "final_state (Hangs sh) = sh"

text \<open>
  The guarantee of the operating system about process ids: along the run, \<open>fork\<close> never
  returns a process id that an occupied slot of the job list holds. (A process id is
  reused only after the child has been reaped, and \<open>sigchld_handler\<close> deletes the job of a
  child in the iteration that reaps it.)
\<close>

fun fork_fresh :: "event list \<Rightarrow> shell \<Rightarrow> bool" where
  "fork_fresh [] sh = True"
| "fork_fresh (e # es) sh =
     ((case e of
         Command sy cl \<Rightarrow> list_all (\<lambda>j. pid j \<noteq> fork_ret sy) (occupied (jobs sh))
       | Sigchld d sy \<Rightarrow> True)
      \<and> (case step e sh of
            Returns sh' \<Rightarrow> fork_fresh es sh'
          | oc \<Rightarrow> True))"

text \<open>
  The positive values that \<open>fork\<close> returns in the commands of a run. When they are
  pairwise distinct, the run is \<open>fork_fresh\<close> from the start of the shell.
\<close>

fun forks :: "event list \<Rightarrow> int list" where
  "forks [] = []"
| "forks (Command sy cl # es) = (if 0 < fork_ret sy then fork_ret sy # forks es else forks es)"
| "forks (Sigchld d sy # es) = forks es"

text \<open>
  The invariant of the job list behind the foreground property: the list is well
  formed, no process id is negative and no two slots hold the same process id; at the
  prompt no slot is in the foreground state, and inside \<open>waitfg\<close> only the slot waited
  for can be. \<open>calm\<close> relates a state to a later one in which no slot has newly entered
  the foreground state and no process id has been added; \<open>good\<close> is what every procedure
  called at the prompt achieves.
\<close>

definition uniq_pids :: "job_t list \<Rightarrow> bool" where
  "uniq_pids js = (\<forall>a < length js. \<forall>b < length js.
                     a \<noteq> b \<and> pid (js ! a) \<noteq> 0 \<longrightarrow> pid (js ! a) \<noteq> pid (js ! b))"

definition table_inv :: "shell \<Rightarrow> bool" where
  "table_inv sh = (wf_shell sh \<and> (\<forall>j \<in> set (jobs sh). 0 \<le> pid j) \<and> uniq_pids (jobs sh))"

definition no_fg :: "job_t list \<Rightarrow> bool" where
  "no_fg js = (\<forall>j \<in> set js. state j \<noteq> FG)"

definition fg_only_at :: "nat \<Rightarrow> job_t list \<Rightarrow> bool" where
  "fg_only_at i js = (\<forall>k < length js. k \<noteq> i \<longrightarrow> state (js ! k) \<noteq> FG)"

definition pids :: "shell \<Rightarrow> int set" where
  "pids sh = set (map pid (occupied (jobs sh)))"

definition calm :: "shell \<Rightarrow> shell \<Rightarrow> bool" where
  "calm sh sh' = ((table_inv sh \<longrightarrow> table_inv sh')
                  \<and> length (jobs sh') = length (jobs sh)
                  \<and> (\<forall>k < length (jobs sh). state (jobs sh' ! k) = FG \<longrightarrow> state (jobs sh ! k) = FG)
                  \<and> pids sh' \<subseteq> pids sh)"

definition prompt_ok :: "shell \<Rightarrow> bool" where
  "prompt_ok sh = (table_inv sh \<and> no_fg (jobs sh))"

definition good :: "outcome \<Rightarrow> bool" where
  "good oc = (fg_count (jobs (final_state oc)) \<le> 1
              \<and> (case oc of Returns sh' \<Rightarrow> prompt_ok sh' | _ \<Rightarrow> True))"

section \<open>Concrete runs\<close>

text \<open>
  Sixteen background jobs with the process ids 1 to 16 fill the table of a fresh shell.
\<close>

definition bg_inserts :: "job_op list" where
  "bg_inserts = map (\<lambda>p. Insert p BG ''sleep 9 &\<newline>'')
                  [1, 2, 3, 4, 5, 6, 7, 8, 9, 10, 11, 12, 13, 14, 15, 16]"

definition full_shell :: shell where
  "full_shell = run_ops bg_inserts init_shell"

text \<open>A shell whose only job is process 100, stopped, with job id 1.\<close>

definition one_job_shell :: shell where
  "one_job_shell = snd (addjob 100 ST ''sleep 5\<newline>'' init_shell)"

text \<open>The full table after the jobs 1 to 15 have been deleted: process 16 is alone.\<close>

definition last_job_shell :: shell where
  "last_job_shell =
     run_ops (map Remove [1, 2, 3, 4, 5, 6, 7, 8, 9, 10, 11, 12, 13, 14, 15]) full_shell"

text \<open>
  The run that makes the counter wrap: the table is filled, three jobs are deleted and
  three are inserted.
\<close>

definition wrap_ops :: "job_op list" where
  "wrap_ops = bg_inserts @ [Remove 1, Remove 3, Remove 4]
              @ map (\<lambda>p. Insert p BG ''sleep 9 &\<newline>'') [17, 18, 19]"

text \<open>Two background jobs, the processes 100 and 101.\<close>

definition two_job_shell :: shell where
  "two_job_shell =
     run_ops [Insert 100 BG ''sleep 1 &\<newline>'', Insert 101 BG ''sleep 9 &\<newline>''] init_shell"

text \<open>
  A system in which \<open>fork\<close> returns 100 to the parent, every \<open>kill\<close> succeeds and no
  \<open>SIGCHLD\<close> arrives; and the same system seen from the child of the \<open>fork\<close>, where
  \<open>execve\<close> fails with \<open>ENOENT\<close>.
\<close>

definition parent_sys :: sys where
  "parent_sys = \<lparr>fork_ret = 100, fork_errno = 0, execve_errno = None,
                  kill_errno = (\<lambda>p signum. None),
                  strerror = (\<lambda>e. if e = 0 then ''Success'' else ''Error''),
                  sigchld = []\<rparr>"

definition child_sys :: sys where
  "child_sys = parent_sys\<lparr>fork_ret := 0, execve_errno := Some 2\<rparr>"


section \<open>Properties of the job list\<close>

lemma first_index_None: "first_index P xs = None \<longleftrightarrow> (\<forall>x \<in> set xs. \<not> P x)"
  by (induction xs) auto

lemma first_index_Some:
  "first_index P xs = Some i \<longleftrightarrow> i < length xs \<and> P (xs ! i) \<and> (\<forall>k < i. \<not> P (xs ! k))"
proof (induction xs arbitrary: i)
  case Nil
  then show ?case by simp
next
  case (Cons x xs)
  show ?case
  proof (cases "P x")
    case True
    then show ?thesis by (cases i) auto
  next
    case False
    show ?thesis
    proof (cases i)
      case 0
      with False show ?thesis by auto
    next
      case (Suc n)
      have "(\<forall>k < Suc n. \<not> P ((x # xs) ! k)) \<longleftrightarrow> (\<forall>k < n. \<not> P (xs ! k))"
        using False by (auto simp: less_Suc_eq_0_disj)
      with False Suc Cons.IH [of n] show ?thesis by auto
    qed
  qed
qed

lemma Max_insert_max:
  fixes a b :: int
  assumes "finite S"
  shows "Max (insert (max a b) S) = Max (insert a (insert b S))"
proof (cases "S = {}")
  case True
  then show ?thesis by simp
next
  case False
  with assms show ?thesis by (simp add: max.assoc)
qed

lemma maxjid_foldl:
  "foldl (\<lambda>m j. if jid j > m then jid j else m) a js = Max (insert a (jid ` set js))"
proof (induction js arbitrary: a)
  case Nil
  then show ?case by simp
next
  case (Cons j js)
  have "(if jid j > a then jid j else a) = max a (jid j)"
    by simp
  with Cons.IH [of "max a (jid j)"] show ?case
    by (simp add: Max_insert_max del: Max_insert)
qed

lemma maxjid_Max: "maxjid js = Max (insert 0 (jid ` set js))"
  by (simp add: maxjid_def maxjid_foldl)

lemma job_fields: "r\<lparr>pid := a, state := b, jid := c, cmdline := d\<rparr> = \<lparr>pid = a, jid = c, state = b, cmdline = d\<rparr>"
  by simp

lemma clearjob_empty: "clearjob j = empty_job"
  by (simp add: clearjob_def empty_job_def)

lemma addjob_first_free:
  assumes "1 \<le> p" "i < length (jobs sh)" "pid (jobs sh ! i) = 0"
    and "\<forall>k < i. pid (jobs sh ! k) \<noteq> 0"
  shows "fst (addjob p s c sh) = True"
    and "jobs (snd (addjob p s c sh))
         = (jobs sh)[i := \<lparr>pid = p, jid = nextjid sh, state = s, cmdline = c\<rparr>]"
    and "nextjid (snd (addjob p s c sh)) = (if nextjid sh + 1 > 16 then 1 else nextjid sh + 1)"
proof -
  have fi: "first_index (\<lambda>j. pid j = 0) (jobs sh) = Some i"
    using assms by (simp add: first_index_Some)
  from assms(1) fi show "fst (addjob p s c sh) = True"
    by (simp add: addjob_def Let_def)
  from assms(1) fi show "jobs (snd (addjob p s c sh))
        = (jobs sh)[i := \<lparr>pid = p, jid = nextjid sh, state = s, cmdline = c\<rparr>]"
    by (simp add: addjob_def Let_def printf_def job_fields)
  from assms(1) fi show "nextjid (snd (addjob p s c sh))
        = (if nextjid sh + 1 > 16 then 1 else nextjid sh + 1)"
    by (simp add: addjob_def Let_def printf_def MAXJOBS_def)
qed

lemma addjob_full:
  assumes "1 \<le> p" "\<forall>j \<in> set (jobs sh). pid j \<noteq> 0"
  shows "addjob p s c sh = (False, printf ''Tried to create too many jobs\<newline>'' sh)"
proof -
  have "first_index (\<lambda>j. pid j = 0) (jobs sh) = None"
    using assms by (simp add: first_index_None)
  with assms show ?thesis by (simp add: addjob_def)
qed

text \<open>
  C6: \<open>addjob\<close> returns false and changes nothing when the process id is below 1; on a
  table without a free slot it returns false, prints the capacity error and leaves the
  table and the counter as they are; otherwise it returns true, the lowest free slot holds
  the process id, the state, the command line and the old value of the counter as job id,
  and the counter is one more, or 1 when that exceeds 16.
\<close>

theorem addjob_spec:
  "(p < 1 \<longrightarrow> addjob p s c sh = (False, sh)) \<and>
   (1 \<le> p \<and> (\<forall>j \<in> set (jobs sh). pid j \<noteq> 0) \<longrightarrow>
      addjob p s c sh = (False, sh\<lparr>out := out sh @ [''Tried to create too many jobs\<newline>'']\<rparr>)) \<and>
   (1 \<le> p \<and> i < length (jobs sh) \<and> pid (jobs sh ! i) = 0 \<and> (\<forall>k < i. pid (jobs sh ! k) \<noteq> 0) \<longrightarrow>
      fst (addjob p s c sh) = True \<and>
      jobs (snd (addjob p s c sh))
        = (jobs sh)[i := \<lparr>pid = p, jid = nextjid sh, state = s, cmdline = c\<rparr>] \<and>
      nextjid (snd (addjob p s c sh)) = (if nextjid sh + 1 > 16 then 1 else nextjid sh + 1))"
proof (intro conjI impI)
  assume "p < 1"
  then show "addjob p s c sh = (False, sh)" by (simp add: addjob_def)
next
  assume "1 \<le> p \<and> (\<forall>j \<in> set (jobs sh). pid j \<noteq> 0)"
  then show "addjob p s c sh
             = (False, sh\<lparr>out := out sh @ [''Tried to create too many jobs\<newline>'']\<rparr>)"
    by (simp add: addjob_full printf_def)
next
  assume a: "1 \<le> p \<and> i < length (jobs sh) \<and> pid (jobs sh ! i) = 0
             \<and> (\<forall>k < i. pid (jobs sh ! k) \<noteq> 0)"
  then have h: "1 \<le> p" "i < length (jobs sh)" "pid (jobs sh ! i) = 0"
    "\<forall>k < i. pid (jobs sh ! k) \<noteq> 0"
    by simp_all
  show "fst (addjob p s c sh) = True"
    by (rule addjob_first_free(1) [OF h])
  show "jobs (snd (addjob p s c sh))
        = (jobs sh)[i := \<lparr>pid = p, jid = nextjid sh, state = s, cmdline = c\<rparr>]"
    by (rule addjob_first_free(2) [OF h])
  show "nextjid (snd (addjob p s c sh))
        = (if nextjid sh + 1 > 16 then 1 else nextjid sh + 1)"
    by (rule addjob_first_free(3) [OF h])
qed

theorem addjob_spec_witness:
  "addjob 0 FG ''ls\<newline>'' init_shell = (False, init_shell) \<and>
   addjob 17 BG ''ls &\<newline>'' full_shell
     = (False, full_shell\<lparr>out := out full_shell @ [''Tried to create too many jobs\<newline>'']\<rparr>) \<and>
   (fst (addjob 17 FG ''ls\<newline>'' (snd (deletejob 16 full_shell))) = True \<and>
      jobs (snd (addjob 17 FG ''ls\<newline>'' (snd (deletejob 16 full_shell))))
        = (jobs (snd (deletejob 16 full_shell)))
            [15 := \<lparr>pid = 17, jid = nextjid (snd (deletejob 16 full_shell)), state = FG,
                     cmdline = ''ls\<newline>''\<rparr>] \<and>
      nextjid (snd (addjob 17 FG ''ls\<newline>'' (snd (deletejob 16 full_shell))))
        = (if nextjid (snd (deletejob 16 full_shell)) + 1 > 16 then 1
           else nextjid (snd (deletejob 16 full_shell)) + 1) \<and>
      nextjid (snd (deletejob 16 full_shell)) = 16)"
proof -
  have h1: "(0::int) < 1" by simp
  have h2: "1 \<le> (17::int) \<and> (\<forall>j \<in> set (jobs full_shell). pid j \<noteq> 0)" by code_simp
  have h3: "1 \<le> (17::int) \<and> 15 < length (jobs (snd (deletejob 16 full_shell)))
       \<and> pid (jobs (snd (deletejob 16 full_shell)) ! 15) = 0
       \<and> (\<forall>k < 15. pid (jobs (snd (deletejob 16 full_shell)) ! k) \<noteq> 0)"
    by code_simp
  have h4: "nextjid (snd (deletejob 16 full_shell)) = 16" by code_simp
  show ?thesis
    using h1 h2 h3 h4
      addjob_spec [of 0 FG "''ls\<newline>''" init_shell 0]
      addjob_spec [of 17 BG "''ls &\<newline>''" full_shell 0]
      addjob_spec [of 17 FG "''ls\<newline>''" "snd (deletejob 16 full_shell)" 15]
    by blast
qed

lemma wf_job_empty: "wf_job empty_job"
  by (simp add: wf_job_def empty_job_def)

lemma maxjid_occupied:
  assumes wf: "list_all wf_job js" and ne: "occupied js \<noteq> []"
  shows "maxjid js = Max (jid ` set (occupied js))"
proof -
  have fin: "finite (jid ` set (occupied js))" by simp
  have ne': "jid ` set (occupied js) \<noteq> {}" using ne by simp
  have sub: "set (occupied js) \<subseteq> set js" by (auto simp: occupied_def)
  have pos: "\<And>j. j \<in> set (occupied js) \<Longrightarrow> 1 \<le> jid j"
    using wf by (auto simp: occupied_def list_all_iff wf_job_def split: if_splits)
  have zero: "\<And>j. j \<in> set js \<Longrightarrow> j \<notin> set (occupied js) \<Longrightarrow> jid j = 0"
    using wf by (auto simp: occupied_def list_all_iff wf_job_def split: if_splits)
  obtain j0 where j0: "j0 \<in> set (occupied js)" using ne by (cases "occupied js") auto
  have "jid j0 \<le> Max (jid ` set (occupied js))"
    by (rule Max_ge) (use j0 in auto)
  with pos [OF j0] have M1: "1 \<le> Max (jid ` set (occupied js))" by simp
  show ?thesis
    unfolding maxjid_Max
  proof (rule Max_eqI)
    show "finite (insert 0 (jid ` set js))" by simp
  next
    fix y assume "y \<in> insert 0 (jid ` set js)"
    then consider "y = 0" | j where "j \<in> set js" "y = jid j" by auto
    then show "y \<le> Max (jid ` set (occupied js))"
    proof cases
      case 1
      with M1 show ?thesis by simp
    next
      case 2
      show ?thesis
      proof (cases "j \<in> set (occupied js)")
        case True
        then show ?thesis using 2 Max_ge [OF fin, of "jid j"] by auto
      next
        case False
        with zero 2 M1 show ?thesis by simp
      qed
    qed
  next
    have "Max (jid ` set (occupied js)) \<in> jid ` set (occupied js)"
      using Max_in [OF fin ne'] .
    with sub show "Max (jid ` set (occupied js)) \<in> insert 0 (jid ` set js)" by auto
  qed
qed

lemma maxjid_no_occupied:
  assumes wf: "list_all wf_job js" and e: "occupied js = []"
  shows "maxjid js = 0"
proof -
  have "\<And>j. j \<in> set js \<Longrightarrow> jid j = 0"
  proof -
    fix j assume j: "j \<in> set js"
    have "pid j = 0"
    proof (rule ccontr)
      assume "pid j \<noteq> 0"
      with j have "j \<in> set (occupied js)" by (simp add: occupied_def)
      with e show False by simp
    qed
    with wf j show "jid j = 0" by (auto simp: list_all_iff wf_job_def)
  qed
  then have "insert 0 (jid ` set js) = {0}" by auto
  then have "Max (insert 0 (jid ` set js)) = Max {0::int}" by (rule arg_cong)
  then show ?thesis by (simp add: maxjid_Max del: Max_insert)
qed

lemma wf_jobs_update:
  "list_all wf_job js \<Longrightarrow> wf_job j \<Longrightarrow> list_all wf_job (js[i := j])"
  by (auto simp: list_all_iff dest!: set_update_subset_insert [THEN subsetD])

lemma deletejob_first:
  assumes "1 \<le> p" "i < length (jobs sh)" "pid (jobs sh ! i) = p"
    and "\<forall>k < i. pid (jobs sh ! k) \<noteq> p"
  shows "deletejob p sh
         = (True, sh\<lparr>jobs := (jobs sh)[i := empty_job],
                      nextjid := maxjid ((jobs sh)[i := empty_job]) + 1\<rparr>)"
proof -
  have "first_index (\<lambda>j. pid j = p) (jobs sh) = Some i"
    using assms by (simp add: first_index_Some)
  with assms(1) show ?thesis
    by (simp add: deletejob_def Let_def clearjob_empty)
qed

lemma deletejob_absent:
  assumes "p < 1 \<or> (\<forall>j \<in> set (jobs sh). pid j \<noteq> p)"
  shows "deletejob p sh = (False, sh)"
  using assms
proof
  assume "p < 1"
  then show ?thesis by (simp add: deletejob_def)
next
  assume "\<forall>j \<in> set (jobs sh). pid j \<noteq> p"
  then have "first_index (\<lambda>j. pid j = p) (jobs sh) = None"
    by (simp add: first_index_None)
  then show ?thesis by (simp add: deletejob_def)
qed

text \<open>
  C7: \<open>deletejob\<close> returns false and changes nothing when the process id is below 1 or no
  slot holds it; otherwise it returns true, the first slot holding the process id is
  cleared, the counter is the largest job id of the slots still occupied plus one (1 when
  none is left), and nothing else changes.
\<close>

theorem deletejob_spec:
  "(p < 1 \<or> (\<forall>j \<in> set (jobs sh). pid j \<noteq> p) \<longrightarrow> deletejob p sh = (False, sh)) \<and>
   (1 \<le> p \<and> i < length (jobs sh) \<and> pid (jobs sh ! i) = p \<and> (\<forall>k < i. pid (jobs sh ! k) \<noteq> p)
      \<and> list_all wf_job (jobs sh) \<longrightarrow>
      fst (deletejob p sh) = True \<and>
      jobs (snd (deletejob p sh)) = (jobs sh)[i := \<lparr>pid = 0, jid = 0, state = UNDEF, cmdline = []\<rparr>] \<and>
      nextjid (snd (deletejob p sh))
        = (if occupied (jobs (snd (deletejob p sh))) = [] then 0
           else Max (jid ` set (occupied (jobs (snd (deletejob p sh)))))) + 1 \<and>
      snd (deletejob p sh)
        = sh\<lparr>jobs := jobs (snd (deletejob p sh)), nextjid := nextjid (snd (deletejob p sh))\<rparr>)"
proof (intro conjI impI)
  assume "p < 1 \<or> (\<forall>j \<in> set (jobs sh). pid j \<noteq> p)"
  then show "deletejob p sh = (False, sh)" by (rule deletejob_absent)
next
  assume a: "1 \<le> p \<and> i < length (jobs sh) \<and> pid (jobs sh ! i) = p
             \<and> (\<forall>k < i. pid (jobs sh ! k) \<noteq> p) \<and> list_all wf_job (jobs sh)"
  let ?js = "(jobs sh)[i := empty_job]"
  from a have d: "deletejob p sh = (True, sh\<lparr>jobs := ?js, nextjid := maxjid ?js + 1\<rparr>)"
    by (simp add: deletejob_first)
  have wf: "list_all wf_job ?js"
    using a wf_job_empty by (simp add: wf_jobs_update)
  show "fst (deletejob p sh) = True" by (simp add: d)
  show "jobs (snd (deletejob p sh))
        = (jobs sh)[i := \<lparr>pid = 0, jid = 0, state = UNDEF, cmdline = []\<rparr>]"
    by (simp add: d empty_job_def)
  show "nextjid (snd (deletejob p sh))
        = (if occupied (jobs (snd (deletejob p sh))) = [] then 0
           else Max (jid ` set (occupied (jobs (snd (deletejob p sh)))))) + 1"
    using maxjid_occupied [OF wf] maxjid_no_occupied [OF wf] by (simp add: d)
  show "snd (deletejob p sh)
        = sh\<lparr>jobs := jobs (snd (deletejob p sh)), nextjid := nextjid (snd (deletejob p sh))\<rparr>"
    by (simp add: d)
qed

theorem deletejob_spec_witness:
  "deletejob 0 full_shell = (False, full_shell) \<and>
   deletejob 99 full_shell = (False, full_shell) \<and>
   (fst (deletejob 16 full_shell) = True \<and>
      jobs (snd (deletejob 16 full_shell))
        = (jobs full_shell)[15 := \<lparr>pid = 0, jid = 0, state = UNDEF, cmdline = []\<rparr>] \<and>
      nextjid (snd (deletejob 16 full_shell))
        = (if occupied (jobs (snd (deletejob 16 full_shell))) = [] then 0
           else Max (jid ` set (occupied (jobs (snd (deletejob 16 full_shell)))))) + 1)"
proof -
  have h1: "(0::int) < 1 \<or> (\<forall>j \<in> set (jobs full_shell). pid j \<noteq> 0)" by simp
  have h2: "(99::int) < 1 \<or> (\<forall>j \<in> set (jobs full_shell). pid j \<noteq> 99)" by code_simp
  have h3: "1 \<le> (16::int) \<and> 15 < length (jobs full_shell) \<and> pid (jobs full_shell ! 15) = 16
       \<and> (\<forall>k < 15. pid (jobs full_shell ! k) \<noteq> 16) \<and> list_all wf_job (jobs full_shell)"
    by code_simp
  show ?thesis
    using h1 h2 h3
      deletejob_spec [of 0 full_shell 0]
      deletejob_spec [of 99 full_shell 0]
      deletejob_spec [of 16 full_shell 15]
    by blast
qed

text \<open>
  C10: when \<open>deletejob\<close> removes the only job of the table, the table is empty and the
  counter is 1, whatever it was before, and the job that \<open>addjob\<close> inserts next has the
  job id 1.
\<close>

theorem deletejob_last_resets_counter:
  assumes wf: "list_all wf_job (jobs sh)"
    and p: "1 \<le> p"
    and i: "i < length (jobs sh)" "pid (jobs sh ! i) = p"
    and others: "\<forall>k < length (jobs sh). k \<noteq> i \<longrightarrow> pid (jobs sh ! k) = 0"
  shows "fst (deletejob p sh) = True \<and>
         occupied (jobs (snd (deletejob p sh))) = [] \<and>
         nextjid (snd (deletejob p sh)) = 1 \<and>
         (\<forall>q s c. 1 \<le> q \<longrightarrow>
            fst (addjob q s c (snd (deletejob p sh))) = True \<and>
            pid2jid (jobs (snd (addjob q s c (snd (deletejob p sh))))) q = 1)"
proof -
  have first: "\<forall>k < i. pid (jobs sh ! k) \<noteq> p"
    using others i p by auto
  let ?sh = "snd (deletejob p sh)"
  let ?js = "(jobs sh)[i := empty_job]"
  have d: "deletejob p sh = (True, sh\<lparr>jobs := ?js, nextjid := maxjid ?js + 1\<rparr>)"
    using p i first by (simp add: deletejob_first)
  have wf': "list_all wf_job ?js"
    using wf wf_job_empty by (simp add: wf_jobs_update)
  have spec: "fst (deletejob p sh) = True" "jobs ?sh = ?js" "nextjid ?sh = maxjid ?js + 1"
    by (simp_all add: d)
  have allfree: "\<forall>k < length (jobs ?sh). pid (jobs ?sh ! k) = 0"
    using others i by (simp add: spec(2) nth_list_update empty_job_def)
  then have "\<forall>j \<in> set (jobs ?sh). pid j = 0"
    by (auto simp: in_set_conv_nth)
  then have occ: "occupied (jobs ?sh) = []"
    by (simp add: occupied_def filter_empty_conv)
  have n1: "nextjid ?sh = 1"
    using maxjid_no_occupied [OF wf'] occ by (simp add: spec)
  have ne: "jobs ?sh \<noteq> []" using i by (auto simp: spec(2))
  have "\<And>q s c. 1 \<le> q \<Longrightarrow> fst (addjob q s c ?sh) = True \<and> pid2jid (jobs (snd (addjob q s c ?sh))) q = 1"
  proof -
    fix q :: int and s c assume q: "1 \<le> q"
    have z: "0 < length (jobs ?sh)" "pid (jobs ?sh ! 0) = 0"
      using ne allfree by auto
    have a: "fst (addjob q s c ?sh) = True"
      "jobs (snd (addjob q s c ?sh)) = (jobs ?sh)[0 := \<lparr>pid = q, jid = nextjid ?sh, state = s, cmdline = c\<rparr>]"
      using addjob_first_free [of q 0 ?sh s c] q z by simp_all
    have "first_index (\<lambda>j. pid j = q) (jobs (snd (addjob q s c ?sh))) = Some 0"
      using z by (simp add: a(2) first_index_Some)
    then have "pid2jid (jobs (snd (addjob q s c ?sh))) q = 1"
      using q z n1 by (simp add: pid2jid_def a(2))
    with a show "fst (addjob q s c ?sh) = True \<and> pid2jid (jobs (snd (addjob q s c ?sh))) q = 1"
      by simp
  qed
  with spec(1) occ n1 show ?thesis by blast
qed

theorem deletejob_last_resets_counter_witness:
  "nextjid last_job_shell = 17 \<and>
   nextjid (snd (deletejob 16 last_job_shell)) = 1 \<and>
   pid2jid (jobs (snd (addjob 200 BG ''ls &\<newline>'' (snd (deletejob 16 last_job_shell))))) 200 = 1"
proof -
  have h: "list_all wf_job (jobs last_job_shell)" "1 \<le> (16::int)"
    "15 < length (jobs last_job_shell)" "pid (jobs last_job_shell ! 15) = 16"
    "\<forall>k < length (jobs last_job_shell). k \<noteq> 15 \<longrightarrow> pid (jobs last_job_shell ! k) = 0"
    by code_simp+
  have n: "nextjid last_job_shell = 17" by code_simp
  from deletejob_last_resets_counter [OF h] n show ?thesis by simp
qed

section \<open>The counter of job ids\<close>

text \<open>
  C1: the job ids of the occupied slots stay pairwise distinct and the counter never
  equals the job id of an occupied slot. The source does not keep this: \<open>addjob\<close> wraps
  the counter to 1 without looking at the table. After sixteen insertions the counter is
  1, the job id of process 1 in slot 0; after three deletions and three more insertions
  the processes 2 and 19 both carry the job id 2.
\<close>

theorem nextjid_wrap_duplicates_jid:
  "nextjid (run_ops bg_inserts init_shell) = 1 \<and>
   pid (jobs (run_ops bg_inserts init_shell) ! 0) = 1 \<and>
   jid (jobs (run_ops bg_inserts init_shell) ! 0) = 1 \<and>
   pid (jobs (run_ops wrap_ops init_shell) ! 1) = 2 \<and>
   jid (jobs (run_ops wrap_ops init_shell) ! 1) = 2 \<and>
   pid (jobs (run_ops wrap_ops init_shell) ! 3) = 19 \<and>
   jid (jobs (run_ops wrap_ops init_shell) ! 3) = 2 \<and>
   \<not> distinct (map jid (occupied (jobs (run_ops wrap_ops init_shell))))"
  by code_simp

section \<open>Evaluating a command line\<close>

text \<open>
  The handler, \<open>waitfg\<close> and the job list routines leave the signal mask alone, so the
  mask with which \<open>eval\<close> returns in the parent is decided by \<open>addjob\<close>: unblocked when
  it succeeds, blocked when the table is full.
\<close>

lemma deletejob_blocked: "sigchld_blocked (snd (deletejob p sh)) = sigchld_blocked sh"
  by (simp add: deletejob_def Let_def split: option.splits)

lemma addjob_blocked: "sigchld_blocked (snd (addjob p s c sh)) = sigchld_blocked sh"
  by (simp add: addjob_def Let_def printf_def split: option.splits)

lemma reap_one_blocked:
  "reap_one p w sh = Returns sh' \<Longrightarrow> sigchld_blocked sh' = sigchld_blocked sh"
  by (cases w)
     (auto simp: reap_one_def Let_def printf_def set_state_def deletejob_blocked
           split: option.splits if_splits)

lemma reap_loop_blocked:
  "reap_loop rs fin sh = Returns sh' \<Longrightarrow> sigchld_blocked sh' = sigchld_blocked sh"
proof (induction rs arbitrary: sh)
  case Nil
  then show ?case by (auto split: option.splits)
next
  case (Cons r rs)
  obtain p w where r: "r = (p, w)" by (cases r)
  show ?case
  proof (cases "p > 0")
    case False
    with Cons.prems r show ?thesis by simp
  next
    case True
    with Cons.prems r obtain sh1 where s1: "reap_one p w sh = Returns sh1"
      "reap_loop rs fin sh1 = Returns sh'"
      by (auto split: outcome.splits)
    from Cons.IH [OF s1(2)] reap_one_blocked [OF s1(1)] show ?thesis by simp
  qed
qed

lemma sigchld_handler_blocked:
  "sigchld_handler d sy sh = Returns sh' \<Longrightarrow> sigchld_blocked sh' = sigchld_blocked sh"
  by (auto simp: sigchld_handler_def Let_def printf_def unix_error_def
           split: outcome.splits if_splits dest!: reap_loop_blocked)

lemma waitfg_loop_blocked:
  "waitfg_loop slot ds sy sh = Returns sh' \<Longrightarrow> sigchld_blocked sh' = sigchld_blocked sh"
proof (induction ds arbitrary: sh)
  case Nil
  then show ?case by (auto split: option.splits bool.splits)
next
  case (Cons d ds)
  show ?case
  proof (cases "waitfg_test slot sh = Some True \<and> \<not> sigchld_blocked sh")
    case False
    with Cons.prems show ?thesis by (auto split: option.splits bool.splits if_splits)
  next
    case True
    with Cons.prems obtain sh1 where s1: "sigchld_handler d sy sh = Returns sh1"
      "waitfg_loop slot ds sy sh1 = Returns sh'"
      by (auto split: outcome.splits)
    from Cons.IH [OF s1(2)] sigchld_handler_blocked [OF s1(1)] show ?thesis by simp
  qed
qed

lemma waitfg_blocked:
  "waitfg sy p sh = Returns sh' \<Longrightarrow> sigchld_blocked sh' = sigchld_blocked sh"
  by (auto simp: waitfg_def printf_def split: outcome.splits if_splits dest!: waitfg_loop_blocked)

lemma eval_parent_addjob_fails:
  assumes "fst (parseline cl) \<noteq> []"
    and "builtin_cmd sy (fst (parseline cl)) sh = None"
    and "0 < fork_ret sy"
    and "\<forall>j \<in> set (jobs sh). pid j \<noteq> 0"
  shows "eval sy cl sh
         = Returns (printf ''Tried to create too many jobs\<newline>'' (sh\<lparr>sigchld_blocked := True\<rparr>))"
proof -
  have "addjob (fork_ret sy) s cl (sh\<lparr>sigchld_blocked := True\<rparr>)
        = (False, printf ''Tried to create too many jobs\<newline>'' (sh\<lparr>sigchld_blocked := True\<rparr>))" for s
    using assms(3,4) by (simp add: addjob_full)
  with assms(1,2,3) show ?thesis
    by (simp add: eval_def Let_def)
qed

lemma eval_parent_addjob_succeeds:
  assumes "fst (parseline cl) \<noteq> []"
    and "builtin_cmd sy (fst (parseline cl)) sh = None"
    and "0 < fork_ret sy"
    and "\<exists>j \<in> set (jobs sh). pid j = 0"
    and "eval sy cl sh = Returns sh'"
  shows "\<not> sigchld_blocked sh'"
proof -
  obtain i where "first_index (\<lambda>j. pid j = 0) (jobs sh) = Some i"
    using assms(4) by (cases "first_index (\<lambda>j. pid j = 0) (jobs sh)") (auto simp: first_index_None)
  then have "fst (addjob (fork_ret sy) s cl (sh\<lparr>sigchld_blocked := True\<rparr>))" for s
    using assms(3) by (simp add: addjob_def Let_def)
  then have a: "\<exists>sh2. addjob (fork_ret sy) s cl (sh\<lparr>sigchld_blocked := True\<rparr>) = (True, sh2)" for s
    by (metis (full_types) prod.collapse)
  show ?thesis
  proof (cases "snd (parseline cl)")
    case True
    obtain sh2 where "addjob (fork_ret sy) BG cl (sh\<lparr>sigchld_blocked := True\<rparr>) = (True, sh2)"
      using a by blast
    with assms(1,2,3,5) True show ?thesis
      by (auto simp: eval_def Let_def printf_def)
  next
    case False
    obtain sh2 where "addjob (fork_ret sy) FG cl (sh\<lparr>sigchld_blocked := True\<rparr>) = (True, sh2)"
      using a by blast
    with assms(1,2,3,5) False show ?thesis
      by (auto simp: eval_def Let_def dest!: waitfg_blocked)
  qed
qed

text \<open>
  C2: \<open>eval\<close> unblocks \<open>SIGCHLD\<close> before it returns, whether \<open>addjob\<close> succeeds or
  fails. The source unblocks only in the branches where \<open>addjob\<close> returns true: on a full
  table \<open>eval\<close> returns to the main loop with \<open>SIGCHLD\<close> blocked.
\<close>

theorem eval_full_table_leaves_sigchld_blocked:
  "sigchld_blocked full_shell = False \<and>
   eval parent_sys ''/bin/ls\<newline>'' full_shell
     = Returns (full_shell\<lparr>sigchld_blocked := True,
                             out := out full_shell @ [''Tried to create too many jobs\<newline>'']\<rparr>)"
  by code_simp

text \<open>
  C3 as stated asks for a non-zero exit status of the child when \<open>execve\<close> fails. The
  child of the source calls \<open>exit(0)\<close>.
\<close>

theorem execve_failure_exit_status_counterexample:
  "eval child_sys ''/no/such -l\<newline>'' init_shell
     = Exits 0 (init_shell\<lparr>errno := 2, out := [''/no/such: Command not found. \<newline>'']\<rparr>)"
  by code_simp

text \<open>
  C3, amended: when \<open>execve\<close> fails in the child, the child prints
  \<open><argv[0]>: Command not found. \<close> and terminates at once with exit status 0; it has
  unblocked \<open>SIGCHLD\<close>, and it never runs the code of the parent.
\<close>

theorem eval_child_execve_failure:
  assumes "fst (parseline cl) \<noteq> []"
    and "hd (fst (parseline cl)) \<notin> {''quit'', ''bg'', ''fg'', ''jobs''}"
    and "fork_ret sy = 0"
    and "execve_errno sy = Some e"
  shows "eval sy cl sh
         = Exits 0 (sh\<lparr>sigchld_blocked := False, errno := e,
                        out := out sh @ [hd (fst (parseline cl)) @ '': Command not found. \<newline>'']\<rparr>)"
proof -
  have "builtin_cmd sy (fst (parseline cl)) sh = None"
    using assms(2) by (simp add: builtin_cmd_def)
  with assms(1,3,4) show ?thesis
    by (simp add: eval_def Let_def printf_def)
qed

theorem eval_child_execve_failure_witness:
  "eval child_sys ''/no/such -l\<newline>'' full_shell
     = Exits 0 (full_shell\<lparr>sigchld_blocked := False, errno := 2,
                  out := out full_shell @ [hd (fst (parseline ''/no/such -l\<newline>'')) @ '': Command not found. \<newline>'']\<rparr>)
   \<and> hd (fst (parseline ''/no/such -l\<newline>'')) = ''/no/such''"
proof -
  have h: "fst (parseline ''/no/such -l\<newline>'') \<noteq> []"
    "hd (fst (parseline ''/no/such -l\<newline>'')) \<notin> {''quit'', ''bg'', ''fg'', ''jobs''}"
    "fork_ret child_sys = 0" "execve_errno child_sys = Some 2"
    by code_simp+
  have n: "hd (fst (parseline ''/no/such -l\<newline>'')) = ''/no/such''" by code_simp
  from eval_child_execve_failure [OF h, of full_shell] n show ?thesis by simp
qed

section \<open>The commands \<open>bg\<close> and \<open>fg\<close>\<close>

text \<open>
  C4: a successful \<open>bg\<close> prints \<open>[job_id] (process_id) command_line\<close>. When the job is
  named by its process id, the source sets \<open>jobid = jid->pid\<close>, and the first field of
  the line is the process id, not the job id; with \<open>%job_id\<close> the line is right.
\<close>

theorem bg_by_pid_prints_pid_as_job_id:
  "pid (jobs one_job_shell ! 0) = 100 \<and> jid (jobs one_job_shell ! 0) = 1 \<and>
   do_bgfg parent_sys [''bg'', ''100''] one_job_shell
     = Returns (one_job_shell\<lparr>jobs := (jobs one_job_shell)[0 := (jobs one_job_shell ! 0)\<lparr>state := BG\<rparr>],
                                kills := [(- 100, SIGCONT)],
                                out := [''[100] (100) sleep 5\<newline>'']\<rparr>) \<and>
   do_bgfg parent_sys [''bg'', ''%1''] one_job_shell
     = Returns (one_job_shell\<lparr>jobs := (jobs one_job_shell)[0 := (jobs one_job_shell ! 0)\<lparr>state := BG\<rparr>],
                                kills := [(- 100, SIGCONT)],
                                out := [''[1] (100) sleep 5\<newline>'']\<rparr>)"
  by code_simp

text \<open>
  \<open>atoi\<close> on arguments outside the range of \<open>int\<close>, and the command \<open>bg 4294967396\<close>,
  which the shell reads as \<open>bg 100\<close>.
\<close>

lemma atoi_wraps:
  "atoi ''4294967396'' = 100 \<and> atoi ''99999999999999999999'' = - 1
   \<and> atoi ''2147483648'' = - 2147483648"
  by code_simp

lemma bg_wrapped_pid_resumes_job:
  "do_bgfg parent_sys [''bg'', ''4294967396''] one_job_shell
     = do_bgfg parent_sys [''bg'', ''100''] one_job_shell"
  by code_simp





section \<open>The handler of \<open>SIGCHLD\<close>\<close>

text \<open>
  C5: only an error of \<open>waitpid\<close> other than \<open>ECHILD\<close> and \<open>EINTR\<close> is fatal. The source
  tests \<open>errno\<close> without testing that \<open>waitpid\<close> has failed: when the loop ends because
  \<open>waitpid\<close> returns 0 (a child is still running), \<open>errno\<close> is what it was before, and
  with \<open>errno = 0\<close> the handler reports \<open>waitpid error\<close> and exits.
\<close>

theorem sigchld_handler_fatal_without_error:
  "errno two_job_shell = 0 \<and>
   sigchld_handler ([(100, WExited 0)], None) parent_sys two_job_shell
     = Exits 1 (printf ''waitpid error: Success\<newline>'' (snd (deletejob 100 two_job_shell)))"
  by code_simp

section \<open>At most one foreground job\<close>

subsection \<open>The job list stays well formed\<close>

lemma count_update:
  "i < length xs \<Longrightarrow>
   length (filter P (xs[i := x])) + (if P (xs ! i) then 1 else 0)
   = length (filter P xs) + (if P x then 1 else 0)"
proof (induction xs arbitrary: i)
  case Nil
  then show ?case by simp
next
  case (Cons y ys)
  show ?case
  proof (cases i)
    case 0
    then show ?thesis by simp
  next
    case (Suc n)
    with Cons.prems have "n < length ys" by simp
    from Cons.IH [OF this] Suc show ?thesis by simp
  qed
qed

lemma fg_count_filter: "fg_count js = length (filter is_fg js)"
proof -
  have "(\<lambda>j. pid j \<noteq> 0 \<and> state j = FG) = is_fg"
    by (auto simp: is_fg_def)
  then show ?thesis by (simp add: fg_count_def occupied_def conj_commute)
qed

lemma addjob_jobs:
  "jobs (snd (addjob p s c sh)) = jobs sh \<and> nextjid (snd (addjob p s c sh)) = nextjid sh
   \<or> (\<exists>i. i < length (jobs sh) \<and> pid (jobs sh ! i) = 0 \<and> 1 \<le> p
        \<and> jobs (snd (addjob p s c sh))
           = (jobs sh)[i := \<lparr>pid = p, jid = nextjid sh, state = s, cmdline = c\<rparr>]
        \<and> nextjid (snd (addjob p s c sh)) = (if nextjid sh + 1 > 16 then 1 else nextjid sh + 1))"
proof (cases "p < 1")
  case True
  then show ?thesis by (simp add: addjob_def)
next
  case False
  show ?thesis
  proof (cases "first_index (\<lambda>j. pid j = 0) (jobs sh)")
    case None
    with False show ?thesis by (simp add: addjob_def printf_def)
  next
    case (Some i)
    then have i: "i < length (jobs sh)" "pid (jobs sh ! i) = 0" "\<forall>k < i. pid (jobs sh ! k) \<noteq> 0"
      by (simp_all add: first_index_Some)
    from False have p: "1 \<le> p" by simp
    from addjob_first_free(2,3) [OF p i, of s c] i p show ?thesis by blast
  qed
qed

lemma deletejob_jobs:
  "deletejob p sh = (False, sh)
   \<or> (\<exists>i. i < length (jobs sh)
        \<and> deletejob p sh = (True, sh\<lparr>jobs := (jobs sh)[i := empty_job],
                                     nextjid := maxjid ((jobs sh)[i := empty_job]) + 1\<rparr>))"
proof (cases "p < 1")
  case True
  then show ?thesis by (simp add: deletejob_def)
next
  case False
  show ?thesis
  proof (cases "first_index (\<lambda>j. pid j = p) (jobs sh)")
    case None
    with False show ?thesis by (simp add: deletejob_def)
  next
    case (Some i)
    then have "i < length (jobs sh)" by (simp add: first_index_Some)
    with Some False show ?thesis
      by (auto simp: deletejob_def Let_def clearjob_empty)
  qed
qed

lemma maxjid_nonneg: "0 \<le> maxjid js"
  by (simp add: maxjid_Max)

lemma wf_addjob: "wf_shell sh \<Longrightarrow> wf_shell (snd (addjob p s c sh))"
  using addjob_jobs [of p s c sh]
  by (auto simp: wf_shell_def wf_job_def intro!: wf_jobs_update)

lemma wf_deletejob: "wf_shell sh \<Longrightarrow> wf_shell (snd (deletejob p sh))"
  using deletejob_jobs [of p sh] maxjid_nonneg
  by (auto simp: wf_shell_def wf_job_empty add_increasing intro!: wf_jobs_update)

lemma resolve_occupied:
  assumes "list_all wf_job js" "resolve js r = Some i"
  shows "i < length js \<and> pid (js ! i) \<noteq> 0"
proof (cases r)
  case (ByJid n)
  with assms(2) have i: "i < length js" "jid (js ! i) = n" "1 \<le> n"
    by (simp_all add: getjobjid_def first_index_Some split: if_splits)
  have "wf_job (js ! i)" using assms(1) i(1) by (simp add: list_all_length)
  with i show ?thesis by (auto simp: wf_job_def split: if_splits)
next
  case (ByPid n)
  with assms(2) have "i < length js" "pid (js ! i) = n" "1 \<le> n"
    by (simp_all add: getjobpid_def first_index_Some split: if_splits)
  then show ?thesis by auto
qed

lemma wf_set_state:
  assumes "wf_shell sh" "i < length (jobs sh)" "pid (jobs sh ! i) \<noteq> 0"
  shows "wf_shell (set_state i s sh)"
proof -
  have "wf_job (jobs sh ! i)" using assms(1,2) by (simp add: wf_shell_def list_all_length)
  with assms(3) have "wf_job ((jobs sh ! i)\<lparr>state := s\<rparr>)" by (simp add: wf_job_def)
  with assms(1) show ?thesis by (simp add: wf_shell_def set_state_def wf_jobs_update)
qed

lemma wf_apply_op: "wf_shell sh \<Longrightarrow> wf_shell (apply_op x sh)"
proof (cases x)
  case (Insert p s c)
  assume "wf_shell sh" with Insert show ?thesis by (simp add: wf_addjob)
next
  case (Remove p)
  assume "wf_shell sh" with Remove show ?thesis by (simp add: wf_deletejob)
next
  case (ToBG r)
  assume wf: "wf_shell sh"
  then have "list_all wf_job (jobs sh)" by (simp add: wf_shell_def)
  from resolve_occupied [OF this] wf ToBG show ?thesis
    by (auto split: option.splits intro: wf_set_state)
next
  case (ToFG r)
  assume wf: "wf_shell sh"
  then have "list_all wf_job (jobs sh)" by (simp add: wf_shell_def)
  from resolve_occupied [OF this] wf ToFG show ?thesis
    by (auto split: option.splits intro: wf_set_state)
next
  case (ToST p)
  assume wf: "wf_shell sh"
  then have "list_all wf_job (jobs sh)" by (simp add: wf_shell_def)
  from resolve_occupied [OF this, of "ByPid p"] wf ToST show ?thesis
    by (auto split: option.splits intro: wf_set_state)
qed

lemma wf_init_shell: "wf_shell init_shell"
  by code_simp

subsection \<open>The handler and \<open>waitfg\<close> put no job in the foreground\<close>

lemma calm_refl: "calm sh sh"
  by (simp add: calm_def)

lemma calm_trans: "calm a b \<Longrightarrow> calm b c \<Longrightarrow> calm a c"
  by (auto simp: calm_def)

lemma calm_same: "jobs sh' = jobs sh \<Longrightarrow> nextjid sh' = nextjid sh \<Longrightarrow> calm sh sh'"
  by (simp add: calm_def table_inv_def wf_shell_def pids_def)

lemma occupied_update:
  "set (occupied (js[i := x])) \<subseteq> (if pid x \<noteq> 0 then {x} else {}) \<union> set (occupied js)"
proof
  fix j assume "j \<in> set (occupied (js[i := x]))"
  then have j: "j \<in> set (js[i := x])" "pid j \<noteq> 0" by (simp_all add: occupied_def)
  then have "j = x \<or> j \<in> set js" using set_update_subset_insert [of js i x] by auto
  with j(2) show "j \<in> (if pid x \<noteq> 0 then {x} else {}) \<union> set (occupied js)"
    by (auto simp: occupied_def)
qed

lemma pids_update:
  assumes "jobs sh' = (jobs sh)[i := x]"
  shows "pids sh' \<subseteq> insert (pid x) (pids sh)"
  using occupied_update [of "jobs sh" i x] assms by (auto simp: pids_def split: if_splits)

lemma pids_update_free:
  assumes "jobs sh' = (jobs sh)[i := x]" "pid x = 0"
  shows "pids sh' \<subseteq> pids sh"
  using occupied_update [of "jobs sh" i x] assms by (auto simp: pids_def)

lemma pids_update_same:
  assumes "jobs sh' = (jobs sh)[i := x]" "i < length (jobs sh)" "pid x = pid (jobs sh ! i)"
  shows "pids sh' \<subseteq> pids sh"
proof (cases "pid x = 0")
  case True
  with assms(1) show ?thesis by (rule pids_update_free)
next
  case False
  with assms(2,3) have "jobs sh ! i \<in> set (occupied (jobs sh))" by (simp add: occupied_def)
  then have "pid x \<in> pids sh" using assms(3) by (auto simp: pids_def)
  with pids_update [OF assms(1)] show ?thesis by auto
qed

lemma calm_printf: "calm sh (printf s sh)"
  by (rule calm_same) (simp_all add: printf_def)

lemma pid_empty_job: "pid empty_job = 0"
  by (simp add: empty_job_def)

lemma state_empty_job: "state empty_job = UNDEF"
  by (simp add: empty_job_def)

lemma uniq_pids_clear:
  assumes "uniq_pids js"
  shows "uniq_pids (js[i := empty_job])"
  unfolding uniq_pids_def
proof (intro allI impI)
  fix a b
  assume a: "a < length (js[i := empty_job])" and b: "b < length (js[i := empty_job])"
    and ab: "a \<noteq> b \<and> pid (js[i := empty_job] ! a) \<noteq> 0"
  from ab a have ai: "a \<noteq> i" by (auto simp: nth_list_update pid_empty_job)
  then have pa: "pid (js[i := empty_job] ! a) = pid (js ! a)" by simp
  show "pid (js[i := empty_job] ! a) \<noteq> pid (js[i := empty_job] ! b)"
  proof (cases "b = i")
    case True
    with b ab pa show ?thesis by (simp add: pid_empty_job)
  next
    case False
    with assms a b ab pa show ?thesis by (simp add: uniq_pids_def)
  qed
qed

lemma uniq_pids_map:
  "uniq_pids js = (\<forall>a < length (map pid js). \<forall>b < length (map pid js).
                     a \<noteq> b \<and> map pid js ! a \<noteq> 0 \<longrightarrow> map pid js ! a \<noteq> map pid js ! b)"
  by (simp add: uniq_pids_def)

lemma uniq_pids_cong: "map pid js' = map pid js \<Longrightarrow> uniq_pids js' = uniq_pids js"
  by (simp only: uniq_pids_map)

lemma waitfg_test_printf: "waitfg_test slot (printf s sh) = waitfg_test slot sh"
  by (cases slot) (simp_all add: waitfg_test_def printf_def)

lemma calm_deletejob: "calm sh (snd (deletejob p sh))"
  using deletejob_jobs [of p sh]
proof
  assume "deletejob p sh = (False, sh)"
  then show ?thesis by (simp add: calm_refl)
next
  assume "\<exists>i. i < length (jobs sh)
        \<and> deletejob p sh = (True, sh\<lparr>jobs := (jobs sh)[i := empty_job],
                                     nextjid := maxjid ((jobs sh)[i := empty_job]) + 1\<rparr>)"
  then obtain i where i: "i < length (jobs sh)"
    and d: "deletejob p sh = (True, sh\<lparr>jobs := (jobs sh)[i := empty_job],
                                     nextjid := maxjid ((jobs sh)[i := empty_job]) + 1\<rparr>)"
    by blast
  have inv: "table_inv sh \<longrightarrow> table_inv (snd (deletejob p sh))"
  proof
    assume t: "table_inv sh"
    then have "wf_shell (snd (deletejob p sh))" by (simp add: table_inv_def wf_deletejob)
    moreover have "\<forall>j \<in> set ((jobs sh)[i := empty_job]). 0 \<le> pid j"
    proof
      fix j assume "j \<in> set ((jobs sh)[i := empty_job])"
      then have "j = empty_job \<or> j \<in> set (jobs sh)"
        using set_update_subset_insert [of "jobs sh" i empty_job] by auto
      with t show "0 \<le> pid j" by (auto simp: table_inv_def pid_empty_job)
    qed
    moreover have "uniq_pids ((jobs sh)[i := empty_job])"
      using t by (simp add: table_inv_def uniq_pids_clear)
    ultimately show "table_inv (snd (deletejob p sh))"
      by (simp add: table_inv_def d)
  qed
  have "\<forall>k < length (jobs sh). state ((jobs sh)[i := empty_job] ! k) = FG \<longrightarrow> state (jobs sh ! k) = FG"
  proof (intro allI impI)
    fix k assume k: "k < length (jobs sh)" and f: "state ((jobs sh)[i := empty_job] ! k) = FG"
    show "state (jobs sh ! k) = FG"
    proof (cases "k = i")
      case True
      with f i show ?thesis by (simp add: state_empty_job)
    next
      case False
      with f show ?thesis by simp
    qed
  qed
  moreover have "pids (snd (deletejob p sh)) \<subseteq> pids sh"
    by (rule pids_update_free [where i = i and x = empty_job]) (simp_all add: d pid_empty_job)
  ultimately show ?thesis using inv by (simp add: calm_def d)
qed

lemma calm_set_state:
  assumes "i < length (jobs sh)" "pid (jobs sh ! i) \<noteq> 0" "s \<noteq> FG"
  shows "calm sh (set_state i s sh)"
proof -
  have inv: "table_inv sh \<longrightarrow> table_inv (set_state i s sh)"
  proof
    assume t: "table_inv sh"
    then have "wf_shell (set_state i s sh)" using assms by (simp add: table_inv_def wf_set_state)
    moreover have "\<forall>j \<in> set (jobs (set_state i s sh)). 0 \<le> pid j"
    proof
      fix j assume "j \<in> set (jobs (set_state i s sh))"
      then have "j = (jobs sh ! i)\<lparr>state := s\<rparr> \<or> j \<in> set (jobs sh)"
        using set_update_subset_insert [of "jobs sh" i "(jobs sh ! i)\<lparr>state := s\<rparr>"]
        by (auto simp: set_state_def)
      with t assms(1) show "0 \<le> pid j" by (auto simp: table_inv_def)
    qed
    moreover have "map pid (jobs (set_state i s sh)) = map pid (jobs sh)"
      using assms(1) by (simp add: set_state_def map_update list_update_same_conv)
    then have "uniq_pids (jobs (set_state i s sh)) = uniq_pids (jobs sh)"
      by (rule uniq_pids_cong)
    with t have "uniq_pids (jobs (set_state i s sh))"
      by (simp add: table_inv_def)
    ultimately show "table_inv (set_state i s sh)" by (simp add: table_inv_def)
  qed
  have "\<forall>k < length (jobs sh). state (jobs (set_state i s sh) ! k) = FG \<longrightarrow> state (jobs sh ! k) = FG"
  proof (intro allI impI)
    fix k assume k: "k < length (jobs sh)" and f: "state (jobs (set_state i s sh) ! k) = FG"
    show "state (jobs sh ! k) = FG"
    proof (cases "k = i")
      case True
      with f k assms(3) show ?thesis by (simp add: set_state_def)
    next
      case False
      with f show ?thesis by (simp add: set_state_def)
    qed
  qed
  moreover have "pids (set_state i s sh) \<subseteq> pids sh"
    by (rule pids_update_same [where i = i and x = "(jobs sh ! i)\<lparr>state := s\<rparr>"])
       (simp_all add: set_state_def assms(1))
  ultimately show ?thesis using inv by (simp add: calm_def set_state_def)
qed

lemma getjobpid_Some:
  "getjobpid js p = Some i \<Longrightarrow> i < length js \<and> pid (js ! i) = p \<and> 1 \<le> p"
  by (simp add: getjobpid_def first_index_Some split: if_splits)

lemma calm_reap_one: "calm sh (final_state (reap_one p w sh))"
proof (cases w)
  case (WExited c)
  have "calm (snd (deletejob p sh)) (final_state (reap_one p w sh))"
    by (rule calm_same) (simp_all add: reap_one_def WExited Let_def printf_def)
  with calm_deletejob [of sh p] show ?thesis by (rule calm_trans)
next
  case (WSignaled n)
  have "calm (snd (deletejob p sh)) (final_state (reap_one p w sh))"
    by (rule calm_same) (simp_all add: reap_one_def WSignaled Let_def printf_def)
  with calm_deletejob [of sh p] show ?thesis by (rule calm_trans)
next
  case (WStopped n)
  show ?thesis
  proof (cases "getjobpid (jobs sh) p")
    case None
    with WStopped show ?thesis by (simp add: reap_one_def calm_refl)
  next
    case (Some i)
    from getjobpid_Some [OF Some] have "calm sh (set_state i ST sh)"
      by (intro calm_set_state) auto
    moreover have "calm (set_state i ST sh) (final_state (reap_one p w sh))"
      by (rule calm_same) (simp_all add: reap_one_def WStopped Some Let_def printf_def)
    ultimately show ?thesis by (rule calm_trans)
  qed
qed

lemma calm_reap_loop: "calm sh (final_state (reap_loop rs fin sh))"
proof (induction rs arbitrary: sh)
  case Nil
  show ?case by (rule calm_same) (simp_all split: option.splits)
next
  case (Cons r rs)
  obtain p w where r: "r = (p, w)" by (cases r)
  show ?case
  proof (cases "p > 0")
    case False
    with r show ?thesis by (simp add: calm_refl)
  next
    case True
    show ?thesis
    proof (cases "reap_one p w sh")
      case (Returns sh1)
      with calm_reap_one [of sh p w] have "calm sh sh1" by simp
      moreover have "calm sh1 (final_state (reap_loop rs fin sh1))" by (rule Cons.IH)
      ultimately show ?thesis using True r Returns by (simp add: calm_trans)
    qed (use calm_reap_one [of sh p w] True r in simp_all)
  qed
qed

lemma calm_sigchld_handler: "calm sh (final_state (sigchld_handler d sy sh))"
proof -
  let ?sh0 = "if verbose sh then printf ''sigchld_handler: entering \<newline>'' sh else sh"
  have c0: "calm sh ?sh0" by (simp add: calm_printf calm_refl)
  have c1: "calm ?sh0 (final_state (reap_loop (fst d) (snd d) ?sh0))" by (rule calm_reap_loop)
  have "calm (final_state (reap_loop (fst d) (snd d) ?sh0)) (final_state (sigchld_handler d sy sh))"
    by (rule calm_same)
       (simp_all add: sigchld_handler_def Let_def unix_error_def printf_def split: outcome.splits)
  with c0 c1 show ?thesis by (blast intro: calm_trans)
qed

lemma waitfg_loop_props:
  "calm sh (final_state (waitfg_loop slot ds sy sh))
   \<and> (\<forall>sh'. waitfg_loop slot ds sy sh = Returns sh' \<longrightarrow> waitfg_test slot sh' = Some False)"
proof (induction ds arbitrary: sh)
  case Nil
  show ?case by (auto simp: calm_refl split: option.splits bool.splits)
next
  case (Cons d ds)
  show ?case
  proof (cases "waitfg_test slot sh = Some True \<and> \<not> sigchld_blocked sh")
    case False
    then show ?thesis by (auto simp: calm_refl split: option.splits bool.splits)
  next
    case True
    show ?thesis
    proof (cases "sigchld_handler d sy sh")
      case (Returns sh1)
      with calm_sigchld_handler [of sh d sy] have "calm sh sh1" by simp
      with Cons.IH [of sh1] True Returns show ?thesis by (auto intro: calm_trans)
    qed (use calm_sigchld_handler [of sh d sy] True in auto)
  qed
qed

lemma waitfg_props:
  "calm sh (final_state (waitfg sy p sh))
   \<and> (\<forall>sh'. waitfg sy p sh = Returns sh' \<longrightarrow> waitfg_test (getjobpid (jobs sh) p) sh' = Some False)"
proof -
  let ?oc = "waitfg_loop (getjobpid (jobs sh) p) (sigchld sy) sy sh"
  have a: "calm sh (final_state ?oc)"
    and b: "\<forall>sh'. ?oc = Returns sh' \<longrightarrow> waitfg_test (getjobpid (jobs sh) p) sh' = Some False"
    using waitfg_loop_props [of sh "getjobpid (jobs sh) p" "sigchld sy" sy] by simp_all
  have "calm (final_state ?oc) (final_state (waitfg sy p sh))"
    by (rule calm_same) (simp_all add: waitfg_def printf_def split: outcome.splits)
  with a have "calm sh (final_state (waitfg sy p sh))" by (rule calm_trans)
  moreover have "\<forall>sh'. waitfg sy p sh = Returns sh' \<longrightarrow> waitfg_test (getjobpid (jobs sh) p) sh' = Some False"
    using b by (auto simp: waitfg_def waitfg_test_printf split: outcome.splits if_splits)
  ultimately show ?thesis by simp
qed

subsection \<open>Commands leave no foreground job behind\<close>

lemma no_fg_count: "no_fg js \<Longrightarrow> fg_count js = 0"
  by (simp add: no_fg_def fg_count_filter is_fg_def filter_empty_conv)

lemma no_fg_only_at: "no_fg js \<Longrightarrow> fg_only_at i js"
  by (simp add: no_fg_def fg_only_at_def)

lemma fg_only_at_le1:
  assumes "fg_only_at i js"
  shows "fg_count js \<le> 1"
proof (cases "i < length js")
  case False
  with assms have "no_fg js"
    by (auto simp: fg_only_at_def no_fg_def in_set_conv_nth)
  then show ?thesis by (simp add: no_fg_count)
next
  case True
  have "no_fg (js[i := empty_job])"
    unfolding no_fg_def
  proof
    fix j assume "j \<in> set (js[i := empty_job])"
    then obtain k where k: "k < length js" "j = js[i := empty_job] ! k"
      by (auto simp: in_set_conv_nth)
    show "state j \<noteq> FG"
    proof (cases "k = i")
      case True
      with k show ?thesis by (simp add: state_empty_job)
    next
      case False
      with k assms show ?thesis by (simp add: fg_only_at_def)
    qed
  qed
  then have "length (filter is_fg (js[i := empty_job])) = 0"
    using no_fg_count [of "js[i := empty_job]"] by (simp add: fg_count_filter)
  moreover have "\<not> is_fg empty_job" by (simp add: is_fg_def pid_empty_job)
  ultimately show ?thesis
    using count_update [OF True, of is_fg empty_job]
    by (simp add: fg_count_filter split: if_splits)
qed

lemma calm_fg_only_at: "calm sh sh' \<Longrightarrow> fg_only_at i (jobs sh) \<Longrightarrow> fg_only_at i (jobs sh')"
  by (auto simp: calm_def fg_only_at_def)

lemma calm_no_fg:
  assumes "calm sh sh'" "no_fg (jobs sh)"
  shows "no_fg (jobs sh')"
  unfolding no_fg_def
proof
  fix j assume "j \<in> set (jobs sh')"
  then obtain k where k: "k < length (jobs sh')" "j = jobs sh' ! k"
    by (auto simp: in_set_conv_nth)
  with assms(1) have "k < length (jobs sh)" by (simp add: calm_def)
  with assms(2) have "state (jobs sh ! k) \<noteq> FG" by (simp add: no_fg_def)
  with assms(1) k \<open>k < length (jobs sh)\<close> show "state j \<noteq> FG" by (auto simp: calm_def)
qed

lemma calm_prompt_ok: "calm sh sh' \<Longrightarrow> prompt_ok sh \<Longrightarrow> prompt_ok sh'"
  by (auto simp: prompt_ok_def calm_no_fg) (simp add: calm_def)

lemma good_calm:
  assumes "prompt_ok sh" "calm sh (final_state oc)"
  shows "good oc"
proof -
  from calm_prompt_ok [OF assms(2,1)] have p: "prompt_ok (final_state oc)" .
  then have "fg_count (jobs (final_state oc)) = 0" by (simp add: prompt_ok_def no_fg_count)
  with p show ?thesis by (cases oc) (simp_all add: good_def)
qed

lemma fgpid_0_no_fg_state:
  assumes wf: "list_all wf_job js" and z: "fgpid js = 0"
  shows "no_fg js"
proof -
  have "first_index (\<lambda>j. state j = FG) js = None"
  proof (cases "first_index (\<lambda>j. state j = FG) js")
    case None
    then show ?thesis .
  next
    case (Some i)
    then have i: "i < length js" "state (js ! i) = FG"
      by (simp_all add: first_index_Some)
    from Some z have "pid (js ! i) = 0" by (simp add: fgpid_def)
    moreover have "wf_job (js ! i)" using wf i(1) by (simp add: list_all_length)
    ultimately have "state (js ! i) = UNDEF" by (simp add: wf_job_def)
    with i(2) show ?thesis by simp
  qed
  then show ?thesis by (simp add: first_index_None no_fg_def)
qed

lemma waitfg_good:
  assumes t: "table_inv sh" and f: "fg_only_at i (jobs sh)"
    and g: "getjobpid (jobs sh) p = Some i"
  shows "good (waitfg sy p sh)"
proof -
  have c: "calm sh (final_state (waitfg sy p sh))"
    and r: "\<forall>sh'. waitfg sy p sh = Returns sh' \<longrightarrow> waitfg_test (Some i) sh' = Some False"
    using waitfg_props [of sh sy p] g by simp_all
  from c t have t': "table_inv (final_state (waitfg sy p sh))" by (simp add: calm_def)
  from c f have f': "fg_only_at i (jobs (final_state (waitfg sy p sh)))" by (rule calm_fg_only_at)
  then have le: "fg_count (jobs (final_state (waitfg sy p sh))) \<le> 1" by (rule fg_only_at_le1)
  show ?thesis
  proof (cases "waitfg sy p sh")
    case (Returns sh')
    with r have test: "waitfg_test (Some i) sh' = Some False" by simp
    from Returns t' f' have t2: "table_inv sh'" and f2: "fg_only_at i (jobs sh')" by simp_all
    have "no_fg (jobs sh')"
    proof (cases "fgpid (jobs sh') = 0")
      case True
      with t2 show ?thesis by (simp add: table_inv_def wf_shell_def fgpid_0_no_fg_state)
    next
      case False
      with test have st: "state (jobs sh' ! i) = ST" by (simp add: waitfg_test_def)
      show ?thesis
        unfolding no_fg_def
      proof
        fix j assume "j \<in> set (jobs sh')"
        then obtain k where k: "k < length (jobs sh')" "j = jobs sh' ! k"
          by (auto simp: in_set_conv_nth)
        show "state j \<noteq> FG"
        proof (cases "k = i")
          case True
          with k st show ?thesis by simp
        next
          case False
          with k f2 show ?thesis by (simp add: fg_only_at_def)
        qed
      qed
    qed
    with t2 Returns show ?thesis by (simp add: good_def prompt_ok_def no_fg_count)
  qed (use le in \<open>simp_all add: good_def\<close>)
qed

lemma calm_Kill: "calm sh (final_state (Kill sy p signum sh))"
  by (rule calm_same) (simp_all add: Kill_def Let_def unix_error_def printf_def split: option.splits)

lemma Kill_Returns:
  "Kill sy p signum sh = Returns sh' \<Longrightarrow> jobs sh' = jobs sh \<and> nextjid sh' = nextjid sh"
  by (auto simp: Kill_def Let_def unix_error_def split: option.splits if_splits)

lemma Kill_final_jobs: "jobs (final_state (Kill sy p signum sh)) = jobs sh"
  by (simp add: Kill_def Let_def unix_error_def printf_def split: option.splits)

lemma table_inv_same:
  "jobs sh' = jobs sh \<Longrightarrow> nextjid sh' = nextjid sh \<Longrightarrow> table_inv sh \<Longrightarrow> table_inv sh'"
  by (simp add: table_inv_def wf_shell_def)

lemma table_inv_set_state:
  assumes t: "table_inv sh" and i: "i < length (jobs sh)" "pid (jobs sh ! i) \<noteq> 0"
  shows "table_inv (set_state i s sh)"
proof -
  have "wf_shell (set_state i s sh)" using t i by (simp add: table_inv_def wf_set_state)
  moreover have "\<forall>j \<in> set (jobs (set_state i s sh)). 0 \<le> pid j"
  proof
    fix j assume "j \<in> set (jobs (set_state i s sh))"
    then have "j = (jobs sh ! i)\<lparr>state := s\<rparr> \<or> j \<in> set (jobs sh)"
      using set_update_subset_insert [of "jobs sh" i "(jobs sh ! i)\<lparr>state := s\<rparr>"]
      by (auto simp: set_state_def)
    with t i(1) show "0 \<le> pid j" by (auto simp: table_inv_def)
  qed
  moreover have "map pid (jobs (set_state i s sh)) = map pid (jobs sh)"
    using i(1) by (simp add: set_state_def map_update list_update_same_conv)
  then have "uniq_pids (jobs (set_state i s sh)) = uniq_pids (jobs sh)"
    by (rule uniq_pids_cong)
  with t have "uniq_pids (jobs (set_state i s sh))" by (simp add: table_inv_def)
  ultimately show ?thesis by (simp add: table_inv_def)
qed

lemma getjobpid_uniq:
  assumes "uniq_pids js" "i < length js" "pid (js ! i) = p" "1 \<le> p"
  shows "getjobpid js p = Some i"
proof -
  have "\<forall>k < i. pid (js ! k) \<noteq> p"
  proof (intro allI impI)
    fix k assume "k < i"
    with assms have "i \<noteq> k \<and> pid (js ! i) \<noteq> 0" "k < length js" by auto
    with assms(1,2) have "pid (js ! i) \<noteq> pid (js ! k)" by (simp add: uniq_pids_def)
    with assms(3) show "pid (js ! k) \<noteq> p" by simp
  qed
  with assms show ?thesis by (simp add: getjobpid_def first_index_Some)
qed

lemma fg_only_at_set_state:
  assumes "no_fg (jobs sh)" "i < length (jobs sh)"
  shows "fg_only_at i (jobs (set_state i s sh))"
  using assms by (simp add: fg_only_at_def no_fg_def set_state_def)

lemma bgfg_resume_good:
  assumes ok: "prompt_ok sh" and i: "i < length (jobs sh)" "pid (jobs sh ! i) = pidt" "1 \<le> pidt"
  shows "good (bgfg_resume sy is_BG i jobid pidt sh)"
proof (cases is_BG)
  case True
  from i have c1: "calm sh (set_state i BG sh)" by (intro calm_set_state) auto
  have c2: "calm (set_state i BG sh) (final_state (Kill sy (- pidt) SIGCONT (set_state i BG sh)))"
    by (rule calm_Kill)
  have "calm (final_state (Kill sy (- pidt) SIGCONT (set_state i BG sh)))
             (final_state (bgfg_resume sy is_BG i jobid pidt sh))"
    by (rule calm_same) (simp_all add: bgfg_resume_def True printf_def split: outcome.splits)
  with c1 c2 have "calm sh (final_state (bgfg_resume sy is_BG i jobid pidt sh))"
    by (blast intro: calm_trans)
  with ok show ?thesis by (rule good_calm)
next
  case False
  let ?sh1 = "set_state i FG sh"
  from ok i have t1: "table_inv ?sh1" by (intro table_inv_set_state) (auto simp: prompt_ok_def)
  from ok i have f1: "fg_only_at i (jobs ?sh1)" by (simp add: prompt_ok_def fg_only_at_set_state)
  have p1: "pid (jobs ?sh1 ! i) = pidt" "i < length (jobs ?sh1)"
    using i by (simp_all add: set_state_def)
  have le: "fg_count (jobs (final_state (Kill sy (- pidt) SIGCONT ?sh1))) \<le> 1"
    using fg_only_at_le1 [OF f1] by (simp add: Kill_final_jobs)
  show ?thesis
  proof (cases "Kill sy (- pidt) SIGCONT ?sh1")
    case (Returns sh2)
    from Kill_Returns [OF Returns] have same: "jobs sh2 = jobs ?sh1" "nextjid sh2 = nextjid ?sh1"
      by simp_all
    from table_inv_same [OF same t1] have t2: "table_inv sh2" .
    from f1 same have f2: "fg_only_at i (jobs sh2)" by simp
    from t2 p1 same i(3) have "getjobpid (jobs sh2) pidt = Some i"
      by (intro getjobpid_uniq) (simp_all add: table_inv_def)
    from waitfg_good [OF t2 f2 this] False Returns show ?thesis
      by (simp add: bgfg_resume_def)
  qed (use le False in \<open>simp_all add: bgfg_resume_def good_def\<close>)
qed

lemma getjobjid_Some:
  "getjobjid js n = Some i \<Longrightarrow> i < length js \<and> jid (js ! i) = n \<and> 1 \<le> n"
  by (simp add: getjobjid_def first_index_Some split: if_splits)

lemma occupied_pid_pos:
  assumes "table_inv sh" "i < length (jobs sh)" "pid (jobs sh ! i) \<noteq> 0"
  shows "1 \<le> pid (jobs sh ! i)"
proof -
  have "jobs sh ! i \<in> set (jobs sh)" using assms(2) by simp
  with assms(1) have "0 \<le> pid (jobs sh ! i)" by (simp add: table_inv_def)
  with assms(3) show ?thesis by simp
qed

lemma do_bgfg_good:
  assumes ok: "prompt_ok sh"
  shows "good (do_bgfg sy argv sh)"
proof (cases "bgfg_errors (hd argv = ''bg'') argv")
  case (Some msg)
  then have "do_bgfg sy argv sh = Returns (printf msg sh)" by (simp add: do_bgfg_def)
  with ok calm_printf [of sh msg] show ?thesis by (simp add: good_calm)
next
  case None
  show ?thesis
  proof (cases "first_char (argv ! 1) = CHR ''%''")
    case True
    show ?thesis
    proof (cases "getjobjid (jobs sh) (atoi (drop 1 (argv ! 1)))")
      case N: None
      with None True have "do_bgfg sy argv sh
        = Returns (printf (''%'' @ show_int (atoi (drop 1 (argv ! 1))) @ '': No such job \<newline>'') sh)"
        by (simp add: do_bgfg_def)
      with ok calm_printf show ?thesis by (simp add: good_calm)
    next
      case (Some i)
      from getjobjid_Some [OF Some] have i: "i < length (jobs sh)" "1 \<le> jid (jobs sh ! i)" by auto
      have "wf_job (jobs sh ! i)"
        using ok i(1) by (simp add: prompt_ok_def table_inv_def wf_shell_def list_all_length)
      with i(2) have "pid (jobs sh ! i) \<noteq> 0" by (auto simp: wf_job_def)
      with ok i(1) have "1 \<le> pid (jobs sh ! i)" by (simp add: prompt_ok_def occupied_pid_pos)
      from bgfg_resume_good [OF ok i(1) refl this] None True Some show ?thesis
        by (simp add: do_bgfg_def)
    qed
  next
    case False
    show ?thesis
    proof (cases "getjobpid (jobs sh) (atoi (argv ! 1))")
      case N: None
      with None False have "do_bgfg sy argv sh
        = Returns (printf (''('' @ show_int (atoi (argv ! 1)) @ ''): No such process \<newline>'') sh)"
        by (simp add: do_bgfg_def)
      with ok calm_printf show ?thesis by (simp add: good_calm)
    next
      case (Some i)
      from getjobpid_Some [OF Some]
      have i: "i < length (jobs sh)" "pid (jobs sh ! i) = atoi (argv ! 1)" "1 \<le> atoi (argv ! 1)"
        by auto
      from bgfg_resume_good [OF ok i] None False Some show ?thesis
        by (simp add: do_bgfg_def)
    qed
  qed
qed

lemma listjob_same: "jobs (listjob i j sh) = jobs sh \<and> nextjid (listjob i j sh) = nextjid sh"
  by (simp add: listjob_def printf_def)

lemma listjobs_fold_same:
  "jobs (fold (\<lambda>(i, j). listjob i j) xs sh) = jobs sh
   \<and> nextjid (fold (\<lambda>(i, j). listjob i j) xs sh) = nextjid sh"
proof (induction xs arbitrary: sh)
  case Nil
  show ?case by simp
next
  case (Cons x xs)
  obtain i j where x: "x = (i, j)" by (cases x)
  from Cons.IH [of "listjob i j sh"] listjob_same [of i j sh] x show ?case by simp
qed

lemma calm_listjobs: "calm sh (listjobs js sh)"
  by (rule calm_same) (simp_all add: listjobs_def listjobs_fold_same)

lemma addjob_cases:
  "(fst (addjob p s c sh) = False \<and> jobs (snd (addjob p s c sh)) = jobs sh
      \<and> nextjid (snd (addjob p s c sh)) = nextjid sh)
   \<or> (\<exists>i. fst (addjob p s c sh) = True \<and> i < length (jobs sh) \<and> pid (jobs sh ! i) = 0 \<and> 1 \<le> p
        \<and> jobs (snd (addjob p s c sh))
           = (jobs sh)[i := \<lparr>pid = p, jid = nextjid sh, state = s, cmdline = c\<rparr>])"
proof (cases "p < 1")
  case True
  then show ?thesis by (simp add: addjob_def)
next
  case False
  show ?thesis
  proof (cases "first_index (\<lambda>j. pid j = 0) (jobs sh)")
    case None
    with False show ?thesis by (simp add: addjob_def printf_def)
  next
    case (Some i)
    then have i: "i < length (jobs sh)" "pid (jobs sh ! i) = 0" "\<forall>k < i. pid (jobs sh ! k) \<noteq> 0"
      by (simp_all add: first_index_Some)
    from False have p: "1 \<le> p" by simp
    from addjob_first_free(1,2) [OF p i, of s c] i p show ?thesis by blast
  qed
qed

lemma fresh_all_slots:
  assumes "list_all (\<lambda>j. pid j \<noteq> p) (occupied js)" "1 \<le> p" "k < length js"
  shows "pid (js ! k) \<noteq> p"
proof (cases "pid (js ! k) = 0")
  case True
  with assms(2) show ?thesis by simp
next
  case False
  with assms(3) have "js ! k \<in> set (occupied js)" by (simp add: occupied_def)
  with assms(1) show ?thesis by (simp add: list_all_iff)
qed

lemma uniq_pids_insert:
  assumes u: "uniq_pids js" and fr: "list_all (\<lambda>j. pid j \<noteq> p) (occupied js)" and p: "1 \<le> p"
    and i: "i < length js"
  shows "uniq_pids (js[i := \<lparr>pid = p, jid = n, state = s, cmdline = c\<rparr>])"
  unfolding uniq_pids_def
proof (intro allI impI)
  let ?js = "js[i := \<lparr>pid = p, jid = n, state = s, cmdline = c\<rparr>]"
  fix a b
  assume a: "a < length ?js" and b: "b < length ?js" and ab: "a \<noteq> b \<and> pid (?js ! a) \<noteq> 0"
  show "pid (?js ! a) \<noteq> pid (?js ! b)"
  proof (cases "a = i")
    case True
    with ab have bi: "b \<noteq> i" by simp
    from b have "pid (js ! b) \<noteq> p" using fresh_all_slots [OF fr p] by simp
    with True bi i show ?thesis by simp
  next
    case False
    note ai = this
    show ?thesis
    proof (cases "b = i")
      case True
      from a have "pid (js ! a) \<noteq> p" using fresh_all_slots [OF fr p] by simp
      with True ai i show ?thesis by simp
    next
      case False
      with ai a b ab u show ?thesis by (simp add: uniq_pids_def)
    qed
  qed
qed

lemma table_inv_addjob:
  assumes t: "table_inv sh" and fr: "list_all (\<lambda>j. pid j \<noteq> p) (occupied (jobs sh))"
  shows "table_inv (snd (addjob p s c sh))"
proof -
  have wf: "wf_shell (snd (addjob p s c sh))" using t by (simp add: table_inv_def wf_addjob)
  from addjob_cases [of p s c sh] show ?thesis
  proof
    assume "fst (addjob p s c sh) = False \<and> jobs (snd (addjob p s c sh)) = jobs sh
      \<and> nextjid (snd (addjob p s c sh)) = nextjid sh"
    with t show ?thesis by (simp add: table_inv_same)
  next
    assume "\<exists>i. fst (addjob p s c sh) = True \<and> i < length (jobs sh) \<and> pid (jobs sh ! i) = 0 \<and> 1 \<le> p
        \<and> jobs (snd (addjob p s c sh))
           = (jobs sh)[i := \<lparr>pid = p, jid = nextjid sh, state = s, cmdline = c\<rparr>]"
    then obtain i where i: "i < length (jobs sh)" "1 \<le> p"
      and js: "jobs (snd (addjob p s c sh))
           = (jobs sh)[i := \<lparr>pid = p, jid = nextjid sh, state = s, cmdline = c\<rparr>]"
      by blast
    have "\<forall>j \<in> set (jobs (snd (addjob p s c sh))). 0 \<le> pid j"
    proof
      fix j assume "j \<in> set (jobs (snd (addjob p s c sh)))"
      then have "j = \<lparr>pid = p, jid = nextjid sh, state = s, cmdline = c\<rparr> \<or> j \<in> set (jobs sh)"
        using set_update_subset_insert
          [of "jobs sh" i "\<lparr>pid = p, jid = nextjid sh, state = s, cmdline = c\<rparr>"]
        by (auto simp: js)
      with t i(2) show "0 \<le> pid j" by (auto simp: table_inv_def)
    qed
    moreover have "uniq_pids (jobs (snd (addjob p s c sh)))"
      using t fr i by (simp add: js table_inv_def uniq_pids_insert)
    ultimately show ?thesis using wf by (simp add: table_inv_def)
  qed
qed

lemma no_fg_update:
  assumes "no_fg js" "state x \<noteq> FG"
  shows "no_fg (js[i := x])"
  unfolding no_fg_def
proof
  fix j assume "j \<in> set (js[i := x])"
  then have "j = x \<or> j \<in> set js" using set_update_subset_insert [of js i x] by auto
  with assms show "state j \<noteq> FG" by (auto simp: no_fg_def)
qed

lemma fg_only_at_update:
  assumes "no_fg js" "i < length js"
  shows "fg_only_at i (js[i := x])"
  using assms by (simp add: fg_only_at_def no_fg_def)

lemma eval_parent_good:
  assumes ok: "prompt_ok sh" and fr: "list_all (\<lambda>j. pid j \<noteq> p) (occupied (jobs sh))"
  shows "good (case addjob p FG cl (sh\<lparr>sigchld_blocked := True\<rparr>) of
                 (True, sh2) \<Rightarrow> waitfg sy p (sh2\<lparr>sigchld_blocked := False\<rparr>)
               | (False, sh2) \<Rightarrow> Returns sh2)"
    and "good (case addjob p BG cl (sh\<lparr>sigchld_blocked := True\<rparr>) of
                 (True, sh2) \<Rightarrow> Returns (printf (msg sh2) (sh2\<lparr>sigchld_blocked := False\<rparr>))
               | (False, sh2) \<Rightarrow> Returns sh2)"
proof -
  let ?sh1 = "sh\<lparr>sigchld_blocked := True\<rparr>"
  have ok1: "prompt_ok ?sh1"
    using ok by (simp add: prompt_ok_def table_inv_def wf_shell_def)
  then have t1: "table_inv ?sh1" and n1: "no_fg (jobs ?sh1)" by (simp_all add: prompt_ok_def)
  have fr1: "list_all (\<lambda>j. pid j \<noteq> p) (occupied (jobs ?sh1))" using fr by simp
  have tinv: "table_inv (snd (addjob p s cl ?sh1))" for s
    using t1 fr1 by (rule table_inv_addjob)
  {
    fix s
    assume f: "fst (addjob p s cl ?sh1) = False"
    from addjob_cases [of p s cl ?sh1] f
    have "jobs (snd (addjob p s cl ?sh1)) = jobs ?sh1" by auto
    with n1 tinv [of s] have "prompt_ok (snd (addjob p s cl ?sh1))"
      by (simp add: prompt_ok_def)
    then have "good (Returns (snd (addjob p s cl ?sh1)))"
      by (simp add: good_def prompt_ok_def no_fg_count)
  } note fail = this
  {
    fix s
    assume f: "fst (addjob p s cl ?sh1) = True"
    from addjob_cases [of p s cl ?sh1] f
    have "\<exists>i. i < length (jobs ?sh1) \<and> 1 \<le> p
        \<and> jobs (snd (addjob p s cl ?sh1))
           = (jobs ?sh1)[i := \<lparr>pid = p, jid = nextjid ?sh1, state = s, cmdline = cl\<rparr>]"
      by auto
  } note succ = this
  show "good (case addjob p FG cl ?sh1 of
                 (True, sh2) \<Rightarrow> waitfg sy p (sh2\<lparr>sigchld_blocked := False\<rparr>)
               | (False, sh2) \<Rightarrow> Returns sh2)"
  proof (cases "fst (addjob p FG cl ?sh1)")
    case False
    with fail [of FG] show ?thesis by (cases "addjob p FG cl ?sh1") simp
  next
    case True
    with succ [of FG] obtain i where i: "i < length (jobs ?sh1)" "1 \<le> p"
      and js: "jobs (snd (addjob p FG cl ?sh1))
           = (jobs ?sh1)[i := \<lparr>pid = p, jid = nextjid ?sh1, state = FG, cmdline = cl\<rparr>]"
      by auto
    let ?sh3 = "(snd (addjob p FG cl ?sh1))\<lparr>sigchld_blocked := False\<rparr>"
    have t3: "table_inv ?sh3" using tinv [of FG] by (simp add: table_inv_def wf_shell_def)
    have f3: "fg_only_at i (jobs ?sh3)" using n1 i(1) by (simp add: js fg_only_at_update)
    have "getjobpid (jobs ?sh3) p = Some i"
      using t3 i by (intro getjobpid_uniq) (simp_all add: table_inv_def js)
    from waitfg_good [OF t3 f3 this] True show ?thesis
      by (cases "addjob p FG cl ?sh1") simp
  qed
  show "good (case addjob p BG cl ?sh1 of
                 (True, sh2) \<Rightarrow> Returns (printf (msg sh2) (sh2\<lparr>sigchld_blocked := False\<rparr>))
               | (False, sh2) \<Rightarrow> Returns sh2)"
  proof (cases "fst (addjob p BG cl ?sh1)")
    case False
    with fail [of BG] show ?thesis by (cases "addjob p BG cl ?sh1") simp
  next
    case True
    with succ [of BG] obtain i where i: "i < length (jobs ?sh1)" "1 \<le> p"
      and js: "jobs (snd (addjob p BG cl ?sh1))
           = (jobs ?sh1)[i := \<lparr>pid = p, jid = nextjid ?sh1, state = BG, cmdline = cl\<rparr>]"
      by auto
    let ?sh3 = "printf (msg (snd (addjob p BG cl ?sh1)))
                  ((snd (addjob p BG cl ?sh1))\<lparr>sigchld_blocked := False\<rparr>)"
    have t3: "table_inv ?sh3"
      using tinv [of BG] by (simp add: table_inv_def wf_shell_def printf_def)
    have "no_fg (jobs ?sh3)" using n1 by (simp add: js printf_def no_fg_update)
    with t3 have "good (Returns ?sh3)" by (simp add: good_def prompt_ok_def no_fg_count)
    with True show ?thesis by (cases "addjob p BG cl ?sh1") simp
  qed
qed

lemma eval_good:
  assumes ok: "prompt_ok sh" and fr: "list_all (\<lambda>j. pid j \<noteq> fork_ret sy) (occupied (jobs sh))"
  shows "good (eval sy cl sh)"
proof (cases "fst (parseline cl) = []")
  case True
  with ok show ?thesis by (simp add: eval_def Let_def good_def prompt_ok_def no_fg_count)
next
  case False
  note argv = this
  show ?thesis
  proof (cases "builtin_cmd sy (fst (parseline cl)) sh")
    case (Some oc)
    have "good oc"
    proof (cases "hd (fst (parseline cl)) = ''quit''")
      case True
      with Some have "oc = Exits 0 sh" by (simp add: builtin_cmd_def)
      with ok show ?thesis by (simp add: good_calm calm_refl)
    next
      case q: False
      show ?thesis
      proof (cases "hd (fst (parseline cl)) = ''bg'' \<or> hd (fst (parseline cl)) = ''fg''")
        case True
        with Some q have "oc = do_bgfg sy (fst (parseline cl)) sh"
          by (auto simp: builtin_cmd_def)
        with ok show ?thesis by (simp add: do_bgfg_good)
      next
        case False
        with Some q have "oc = Returns (listjobs (jobs sh) sh)"
          by (auto simp: builtin_cmd_def split: if_splits)
        with ok calm_listjobs [of sh "jobs sh"] show ?thesis by (simp add: good_calm)
      qed
    qed
    with argv Some show ?thesis by (simp add: eval_def Let_def)
  next
    case None
    show ?thesis
    proof (cases "fork_ret sy < 0")
      case True
      have "calm sh (final_state (unix_error sy ''Fork error''
                       (sh\<lparr>sigchld_blocked := True, errno := fork_errno sy\<rparr>)))"
        by (rule calm_same) (simp_all add: unix_error_def printf_def)
      with ok have "good (unix_error sy ''Fork error''
                       (sh\<lparr>sigchld_blocked := True, errno := fork_errno sy\<rparr>))"
        by (rule good_calm)
      with argv None True show ?thesis by (simp add: eval_def Let_def)
    next
      case nf: False
      show ?thesis
      proof (cases "fork_ret sy = 0")
        case True
        have "calm sh (final_state (eval sy cl sh))"
          by (rule calm_same)
             (use argv None True in \<open>simp_all add: eval_def Let_def printf_def split: option.splits\<close>)
        with ok show ?thesis by (rule good_calm)
      next
        case False
        from eval_parent_good(1) [OF ok fr, where cl = cl and sy = sy]
          eval_parent_good(2) [OF ok fr, where cl = cl and msg = "\<lambda>sh2. ''['' @
                show_int (pid2jid (jobs sh2) (fork_ret sy)) @ ''] ('' @ show_int (fork_ret sy)
                @ '') '' @ cl"]
          argv None nf False show ?thesis
          by (simp add: eval_def Let_def)
      qed
    qed
  qed
qed

lemma step_good:
  assumes "prompt_ok sh"
    and "case e of Command sy cl \<Rightarrow> list_all (\<lambda>j. pid j \<noteq> fork_ret sy) (occupied (jobs sh))
         | Sigchld d sy \<Rightarrow> True"
  shows "good (step e sh)"
proof (cases e)
  case (Command sy cl)
  with assms show ?thesis by (simp add: eval_good)
next
  case (Sigchld d sy)
  show ?thesis
  proof (cases "sigchld_blocked sh")
    case True
    with Sigchld assms(1) show ?thesis by (simp add: good_calm calm_refl)
  next
    case False
    with Sigchld assms(1) calm_sigchld_handler [of sh d sy] show ?thesis
      by (simp add: good_calm)
  qed
qed


lemma init_jobs: "jobs init_shell = replicate 16 empty_job"
  by (simp add: init_shell_def initjobs_def clearjob_empty)

lemma prompt_ok_init: "prompt_ok init_shell"
proof -
  have "wf_shell init_shell"
    by (simp add: wf_shell_def init_jobs list_all_iff wf_job_empty) (simp add: init_shell_def)
  moreover have "uniq_pids (jobs init_shell)"
    by (simp add: uniq_pids_def init_jobs pid_empty_job)
  ultimately show ?thesis
    by (simp add: prompt_ok_def table_inv_def no_fg_def init_jobs pid_empty_job state_empty_job)
qed

subsection \<open>Process ids enter the job list only through \<open>fork\<close>\<close>

lemma calm_pids: "calm sh sh' \<Longrightarrow> pids sh' \<subseteq> pids sh"
  by (simp add: calm_def)

lemma pids_same: "jobs sh' = jobs sh \<Longrightarrow> pids sh' = pids sh"
  by (simp add: pids_def)

lemma bgfg_resume_calm:
  "calm (set_state i (if is_BG then BG else FG) sh)
        (final_state (bgfg_resume sy is_BG i jobid pidt sh))"
proof (cases is_BG)
  case True
  have c2: "calm (set_state i BG sh) (final_state (Kill sy (- pidt) SIGCONT (set_state i BG sh)))"
    by (rule calm_Kill)
  have "calm (final_state (Kill sy (- pidt) SIGCONT (set_state i BG sh)))
             (final_state (bgfg_resume sy is_BG i jobid pidt sh))"
    by (rule calm_same) (simp_all add: bgfg_resume_def True printf_def split: outcome.splits)
  with c2 True show ?thesis by (auto intro: calm_trans)
next
  case False
  let ?sh1 = "set_state i FG sh"
  have c2: "calm ?sh1 (final_state (Kill sy (- pidt) SIGCONT ?sh1))" by (rule calm_Kill)
  show ?thesis
  proof (cases "Kill sy (- pidt) SIGCONT ?sh1")
    case (Returns sh2)
    with c2 have "calm ?sh1 sh2" by simp
    moreover have "calm sh2 (final_state (waitfg sy pidt sh2))"
      using waitfg_props [of sh2 sy pidt] by simp
    ultimately show ?thesis using False Returns by (simp add: bgfg_resume_def calm_trans)
  qed (use c2 False in \<open>simp_all add: bgfg_resume_def\<close>)
qed

lemma bgfg_resume_pids:
  assumes "i < length (jobs sh)"
  shows "pids (final_state (bgfg_resume sy is_BG i jobid pidt sh)) \<subseteq> pids sh"
proof -
  have "pids (set_state i (if is_BG then BG else FG) sh) \<subseteq> pids sh"
    by (rule pids_update_same
          [where i = i and x = "(jobs sh ! i)\<lparr>state := (if is_BG then BG else FG)\<rparr>"])
       (simp_all add: set_state_def assms)
  with calm_pids [OF bgfg_resume_calm [of i is_BG sh sy jobid pidt]] show ?thesis by blast
qed

lemma do_bgfg_pids: "pids (final_state (do_bgfg sy argv sh)) \<subseteq> pids sh"
proof (cases "bgfg_errors (hd argv = ''bg'') argv")
  case (Some msg)
  then show ?thesis by (simp add: do_bgfg_def pids_def printf_def)
next
  case None
  show ?thesis
  proof (cases "first_char (argv ! 1) = CHR ''%''")
    case True
    show ?thesis
    proof (cases "getjobjid (jobs sh) (atoi (drop 1 (argv ! 1)))")
      case N: None
      with None True show ?thesis by (simp add: do_bgfg_def pids_def printf_def)
    next
      case (Some i)
      from getjobjid_Some [OF Some] have "i < length (jobs sh)" by simp
      from bgfg_resume_pids [OF this] None True Some show ?thesis by (simp add: do_bgfg_def)
    qed
  next
    case False
    show ?thesis
    proof (cases "getjobpid (jobs sh) (atoi (argv ! 1))")
      case N: None
      with None False show ?thesis by (simp add: do_bgfg_def pids_def printf_def)
    next
      case (Some i)
      from getjobpid_Some [OF Some] have "i < length (jobs sh)" by simp
      from bgfg_resume_pids [OF this] None False Some show ?thesis by (simp add: do_bgfg_def)
    qed
  qed
qed

lemma addjob_pids: "pids (snd (addjob p s c sh)) \<subseteq> insert p (pids sh)"
  using addjob_cases [of p s c sh]
proof
  assume "fst (addjob p s c sh) = False \<and> jobs (snd (addjob p s c sh)) = jobs sh
      \<and> nextjid (snd (addjob p s c sh)) = nextjid sh"
  then show ?thesis by (auto simp: pids_def)
next
  assume "\<exists>i. fst (addjob p s c sh) = True \<and> i < length (jobs sh) \<and> pid (jobs sh ! i) = 0 \<and> 1 \<le> p
        \<and> jobs (snd (addjob p s c sh))
           = (jobs sh)[i := \<lparr>pid = p, jid = nextjid sh, state = s, cmdline = c\<rparr>]"
  then obtain i where "jobs (snd (addjob p s c sh))
           = (jobs sh)[i := \<lparr>pid = p, jid = nextjid sh, state = s, cmdline = c\<rparr>]"
    by blast
  from pids_update [OF this] show ?thesis by simp
qed

lemma eval_parent_pids:
  "pids (final_state (case addjob p FG cl (sh\<lparr>sigchld_blocked := True\<rparr>) of
                 (True, sh2) \<Rightarrow> waitfg sy p (sh2\<lparr>sigchld_blocked := False\<rparr>)
               | (False, sh2) \<Rightarrow> Returns sh2)) \<subseteq> insert p (pids sh)"
  "pids (final_state (case addjob p BG cl (sh\<lparr>sigchld_blocked := True\<rparr>) of
                 (True, sh2) \<Rightarrow> Returns (printf (msg sh2) (sh2\<lparr>sigchld_blocked := False\<rparr>))
               | (False, sh2) \<Rightarrow> Returns sh2)) \<subseteq> insert p (pids sh)"
proof -
  let ?sh1 = "sh\<lparr>sigchld_blocked := True\<rparr>"
  have a: "pids (snd (addjob p s cl ?sh1)) \<subseteq> insert p (pids sh)" for s
    using addjob_pids [of p s cl ?sh1] by (simp add: pids_def)
  show "pids (final_state (case addjob p FG cl ?sh1 of
                 (True, sh2) \<Rightarrow> waitfg sy p (sh2\<lparr>sigchld_blocked := False\<rparr>)
               | (False, sh2) \<Rightarrow> Returns sh2)) \<subseteq> insert p (pids sh)"
  proof (cases "addjob p FG cl ?sh1")
    case (Pair b sh2)
    with a [of FG] have s2: "pids sh2 \<subseteq> insert p (pids sh)" by simp
    show ?thesis
    proof (cases b)
      case False
      with Pair s2 show ?thesis by simp
    next
      case True
      have "pids (final_state (waitfg sy p (sh2\<lparr>sigchld_blocked := False\<rparr>)))
            \<subseteq> pids (sh2\<lparr>sigchld_blocked := False\<rparr>)"
        using waitfg_props [of "sh2\<lparr>sigchld_blocked := False\<rparr>" sy p] by (simp add: calm_pids)
      moreover have "pids (sh2\<lparr>sigchld_blocked := False\<rparr>) = pids sh2" by (simp add: pids_def)
      ultimately show ?thesis using Pair True s2 by auto
    qed
  qed
  show "pids (final_state (case addjob p BG cl ?sh1 of
                 (True, sh2) \<Rightarrow> Returns (printf (msg sh2) (sh2\<lparr>sigchld_blocked := False\<rparr>))
               | (False, sh2) \<Rightarrow> Returns sh2)) \<subseteq> insert p (pids sh)"
  proof (cases "addjob p BG cl ?sh1")
    case (Pair b sh2)
    with a [of BG] have s2: "pids sh2 \<subseteq> insert p (pids sh)" by simp
    have "pids (printf (msg sh2) (sh2\<lparr>sigchld_blocked := False\<rparr>)) = pids sh2"
      by (simp add: pids_def printf_def)
    with Pair s2 show ?thesis by (cases b) simp_all
  qed
qed

lemma eval_pids: "pids (final_state (eval sy cl sh)) \<subseteq> insert (fork_ret sy) (pids sh)"
proof (cases "fst (parseline cl) = []")
  case True
  then show ?thesis by (auto simp: eval_def Let_def)
next
  case False
  note argv = this
  show ?thesis
  proof (cases "builtin_cmd sy (fst (parseline cl)) sh")
    case (Some oc)
    have "pids (final_state oc) \<subseteq> pids sh"
    proof (cases "hd (fst (parseline cl)) = ''quit''")
      case True
      with Some have "oc = Exits 0 sh" by (simp add: builtin_cmd_def)
      then show ?thesis by simp
    next
      case q: False
      show ?thesis
      proof (cases "hd (fst (parseline cl)) = ''bg'' \<or> hd (fst (parseline cl)) = ''fg''")
        case True
        with Some q have "oc = do_bgfg sy (fst (parseline cl)) sh"
          by (auto simp: builtin_cmd_def)
        then show ?thesis by (simp add: do_bgfg_pids)
      next
        case False
        with Some q have "oc = Returns (listjobs (jobs sh) sh)"
          by (auto simp: builtin_cmd_def split: if_splits)
        with calm_listjobs [of sh "jobs sh"] show ?thesis by (simp add: calm_pids)
      qed
    qed
    with argv Some show ?thesis by (auto simp: eval_def Let_def)
  next
    case None
    show ?thesis
    proof (cases "fork_ret sy < 0 \<or> fork_ret sy = 0")
      case True
      have "jobs (final_state (eval sy cl sh)) = jobs sh"
        using argv None True
        by (auto simp: eval_def Let_def unix_error_def printf_def split: option.splits)
      then show ?thesis by (auto simp: pids_def)
    next
      case False
      from eval_parent_pids(1) [where cl = cl and sy = sy and sh = sh and p = "fork_ret sy"]
          eval_parent_pids(2) [where cl = cl and sh = sh and p = "fork_ret sy" and msg = "\<lambda>sh2. ''['' @
                show_int (pid2jid (jobs sh2) (fork_ret sy)) @ ''] ('' @ show_int (fork_ret sy)
                @ '') '' @ cl"]
          argv None False show ?thesis
        by (simp add: eval_def Let_def)
    qed
  qed
qed

lemma step_pids:
  "pids (final_state (step e sh))
   \<subseteq> (case e of Command sy cl \<Rightarrow> insert (fork_ret sy) (pids sh) | Sigchld d sy \<Rightarrow> pids sh)"
proof (cases e)
  case (Command sy cl)
  then show ?thesis by (simp add: eval_pids)
next
  case (Sigchld d sy)
  with calm_sigchld_handler [of sh d sy] show ?thesis by (simp add: calm_pids)
qed

lemma occupied_pid_positive:
  assumes "table_inv sh" "p \<in> pids sh"
  shows "0 < p"
proof -
  from assms(2) obtain j where j: "j \<in> set (jobs sh)" "pid j \<noteq> 0" "pid j = p"
    by (auto simp: pids_def occupied_def)
  from assms(1) have "\<forall>j \<in> set (jobs sh). 0 \<le> pid j" by (simp add: table_inv_def)
  with j(1) have "0 \<le> pid j" by blast
  with j show ?thesis by simp
qed

lemma forks_positive: "p \<in> set (forks es) \<Longrightarrow> 0 < p"
  by (induction es rule: forks.induct) (auto split: if_splits)

lemma distinct_forks_fresh_from:
  "prompt_ok sh \<Longrightarrow> distinct (forks es) \<Longrightarrow> pids sh \<inter> set (forks es) = {}
   \<Longrightarrow> fork_fresh es sh"
proof (induction es arbitrary: sh)
  case Nil
  show ?case by simp
next
  case (Cons e es)
  have fr: "case e of Command sy cl \<Rightarrow> list_all (\<lambda>j. pid j \<noteq> fork_ret sy) (occupied (jobs sh))
            | Sigchld d sy \<Rightarrow> True"
  proof (cases e)
    case (Command sy cl)
    have "fork_ret sy \<notin> pids sh"
    proof (cases "0 < fork_ret sy")
      case True
      with Command Cons.prems(3) show ?thesis by auto
    next
      case False
      with occupied_pid_positive [of sh "fork_ret sy"] Cons.prems(1) show ?thesis
        by (auto simp: prompt_ok_def)
    qed
    then have "\<forall>j \<in> set (occupied (jobs sh)). pid j \<noteq> fork_ret sy"
    proof (intro ballI notI)
      fix j assume n: "fork_ret sy \<notin> pids sh" and j: "j \<in> set (occupied (jobs sh))"
        and e: "pid j = fork_ret sy"
      from j have "pid j \<in> pids sh" by (simp add: pids_def)
      with n e show False by simp
    qed
    with Command show ?thesis by (simp add: list_all_iff)
  next
    case (Sigchld d sy)
    then show ?thesis by simp
  qed
  have rest: "fork_fresh es sh'" if r: "step e sh = Returns sh'" for sh'
  proof -
    from step_good [OF Cons.prems(1) fr] r have ok': "prompt_ok sh'" by (simp add: good_def)
    have d': "distinct (forks es)"
      using Cons.prems(2) by (cases e) (auto split: if_splits)
    have sub: "pids sh' \<subseteq> (case e of Command sy cl \<Rightarrow> insert (fork_ret sy) (pids sh)
                             | Sigchld d sy \<Rightarrow> pids sh)"
      using step_pids [of e sh] r by simp
    have "pids sh' \<inter> set (forks es) = {}"
    proof (cases e)
      case (Command sy cl)
      show ?thesis
      proof (cases "0 < fork_ret sy")
        case True
        with Command Cons.prems(2,3) sub show ?thesis by auto
      next
        case False
        with forks_positive [of "fork_ret sy" es] have "fork_ret sy \<notin> set (forks es)" by auto
        with Command Cons.prems(3) sub False show ?thesis by auto
      qed
    next
      case (Sigchld d sy)
      with Cons.prems(3) sub show ?thesis by auto
    qed
    from Cons.IH [OF ok' d' this] show ?thesis .
  qed
  from fr rest show ?case by (auto split: outcome.splits)
qed

lemma pids_init: "pids init_shell = {}"
  by (simp add: pids_def occupied_def init_jobs pid_empty_job)

lemma distinct_forks_fresh: "distinct (forks es) \<Longrightarrow> fork_fresh es init_shell"
  by (rule distinct_forks_fresh_from) (simp_all add: prompt_ok_init pids_init)



end
